theory Spec2Isabelle
  imports
    Main
    "HOL-Library.AList"
    "HOL-Library.Char_ord"
    "HOL-Library.List_Lexorder"
    "HOL-Library.Multiset"
    "HOL-Library.Product_Lexorder"
begin

section \<open>The two-layer cache manager of \<^verbatim>\<open>src/renderer.js\<close> (class ExtensionCacheManager)\<close>

text \<open>
  The class keeps an in-memory layer (a JavaScript \<^verbatim>\<open>Map\<close> plus an array
  \<^verbatim>\<open>memoryAccessOrder\<close>) in front of an IndexedDB object store, and trims the object
  store in a debounced background pass guarded by two boolean flags.

  Conventions of the embedding.
  \<^item> A JavaScript \<^verbatim>\<open>Map\<close> is an association list in insertion order:
    \<^verbatim>\<open>has\<close> is \<open>map_of m k \<noteq> None\<close>, \<^verbatim>\<open>set\<close> is \<open>AList.update\<close> (in place
    for a present key, appended for a new one), \<^verbatim>\<open>delete\<close> is \<open>AList.delete\<close>,
    \<^verbatim>\<open>size\<close> is \<open>length\<close>.
  \<^item> The object store (key path \<^verbatim>\<open>key\<close>) is an association list of its records;
    \<^verbatim>\<open>put\<close> is \<open>AList.update\<close>, \<^verbatim>\<open>count\<close> is \<open>length\<close>.
  \<^item> \<^verbatim>\<open>Date.now()\<close> and the outcome of every IndexedDB request are inputs of the
    function that performs them.
  \<^item> An asynchronous method returns \<open>Resolve\<close> or \<open>Reject\<close> together with the state it
    leaves behind; a call that never returns (the eviction loop of
    \<^verbatim>\<open>_addToMemoryCache\<close> spinning on an empty order array) is \<open>None\<close>.
  \<^item> The leading underscore of private methods is dropped.
\<close>

subsection \<open>Data\<close>

datatype jsval =
    JNull
  | JUndefined
  | JBool bool
  | JNum int
  | JStr string
  | JObj "(string \<times> jsval) list"

type_synonym cache_key = string
type_synonym time = int

datatype error = DOMException string | Error string

datatype 'a completion = Resolve 'a | Reject error

text \<open>The metadata object: \<^verbatim>\<open>{ type }\<close> in \<^verbatim>\<open>set\<close>,
  \<^verbatim>\<open>{ type, originalTimestamp }\<close> in \<^verbatim>\<open>get\<close>.\<close>

record metadata =
  md_type :: string
  md_originalTimestamp :: "time option"

text \<open>An entry of \<^verbatim>\<open>memoryCache\<close>: \<^verbatim>\<open>{ value, metadata, accessTime }\<close>.\<close>

record mem_item =
  item_value :: jsval
  item_metadata :: metadata
  item_accessTime :: time

text \<open>A record of the object store:
  \<^verbatim>\<open>{ key, value, type, size, timestamp, accessTime }\<close>.\<close>

record db_item =
  db_key :: cache_key
  db_value :: jsval
  db_type :: string
  db_size :: nat
  db_timestamp :: time
  db_accessTime :: time

datatype promise_state = Fulfilled | Rejected error

text \<open>A continuation of \<^verbatim>\<open>_asyncCleanup\<close> waiting for IndexedDB: either for the
  \<^verbatim>\<open>count()\<close> request, or for the cleanup transaction, with the local
  \<^verbatim>\<open>itemsToDelete\<close> it has computed.\<close>

datatype pass_phase = AwaitingCount | AwaitingTrim nat

text \<open>
  The fields of \<^verbatim>\<open>this\<close>, the contents of the object store, and the continuations the
  event loop holds for this manager: \<open>timers\<close> pending 10ms callbacks of
  \<^verbatim>\<open>_scheduleAsyncCleanup\<close>, \<open>passes\<close> invocations of \<^verbatim>\<open>_asyncCleanup\<close> that
  are past its guard and not finished, \<open>pollers\<close> invocations of \<^verbatim>\<open>cleanup\<close>
  sleeping in its 50ms polling loop.
  \<open>initPromise\<close> is the settled state of \<^verbatim>\<open>this.initPromise\<close>.
\<close>

record manager =
  maxItems :: nat
  memoryMaxItems :: nat
  memoryCache :: "(cache_key \<times> mem_item) list"
  memoryAccessOrder :: "cache_key list"
  initPromise :: promise_state
  cleanupInProgress :: bool
  cleanupScheduled :: bool
  store :: "(cache_key \<times> db_item) list"
  timers :: nat
  passes :: "pass_phase list"
  pollers :: nat

text \<open>\<^verbatim>\<open>constructor(maxItems = 1000, memoryMaxItems = 100)\<close>; the result of
  \<^verbatim>\<open>indexedDB.open\<close> and the records already in the database are inputs.
  \<^verbatim>\<open>request.onsuccess\<close> sets \<^verbatim>\<open>this.db\<close> and resolves, \<^verbatim>\<open>request.onerror\<close>
  rejects with \<^verbatim>\<open>request.error\<close> and leaves \<^verbatim>\<open>this.db\<close> null.\<close>

definition constructor ::
  "nat \<Rightarrow> nat \<Rightarrow> promise_state \<Rightarrow> (cache_key \<times> db_item) list \<Rightarrow> manager" where
  "constructor mx mmx opened persisted =
     \<lparr> maxItems = mx, memoryMaxItems = mmx,
       memoryCache = [], memoryAccessOrder = [],
       initPromise = opened,
       cleanupInProgress = False, cleanupScheduled = False,
       store = persisted, timers = 0, passes = [], pollers = 0 \<rparr>"

text \<open>\<^verbatim>\<open>this.db\<close> is assigned in one place, the success handler of the open request,
  which resolves \<^verbatim>\<open>initPromise\<close> in the same callback; \<^verbatim>\<open>initDB\<close> runs in the
  constructor. So \<^verbatim>\<open>this.db\<close> is non-null exactly when the promise is fulfilled.\<close>

definition db :: "manager \<Rightarrow> bool" where
  "db s \<longleftrightarrow> initPromise s = Fulfilled"

text \<open>\<^verbatim>\<open>ensureDB\<close>: \<^verbatim>\<open>if (!this.db) await this.initPromise; return this.db\<close>.
  Awaiting the rejected promise throws its error.\<close>

definition ensureDB :: "manager \<Rightarrow> error + unit" where
  "ensureDB s =
     (if db s then Inr ()
      else (case initPromise s of
              Rejected e \<Rightarrow> Inl e
            | Fulfilled \<Rightarrow> Inr ()))"

subsection \<open>L1: the memory cache\<close>

text \<open>\<^verbatim>\<open>_removeFromMemoryCache(key)\<close>: when the map has the key, delete it and splice
  its first occurrence out of the order array.\<close>

definition removeFromMemoryCache :: "cache_key \<Rightarrow> manager \<Rightarrow> manager" where
  "removeFromMemoryCache k s =
     (if map_of (memoryCache s) k \<noteq> None
      then s\<lparr> memoryCache := AList.delete k (memoryCache s),
              memoryAccessOrder := remove1 k (memoryAccessOrder s) \<rparr>
      else s)"

text \<open>The loop \<^verbatim>\<open>while (this.memoryCache.size > this.memoryMaxItems)\<close> of
  \<^verbatim>\<open>_addToMemoryCache\<close>, on the map and the order array. \<^verbatim>\<open>shift()\<close> on an empty
  array returns undefined, \<^verbatim>\<open>delete(undefined)\<close> removes nothing and the condition
  stays true: the loop does not end, which is \<open>None\<close>.\<close>

fun evictOldest ::
  "nat \<Rightarrow> (cache_key \<times> mem_item) list \<Rightarrow> cache_key list
     \<Rightarrow> ((cache_key \<times> mem_item) list \<times> cache_key list) option" where
  "evictOldest mmx cache [] = (if length cache > mmx then None else Some (cache, []))"
| "evictOldest mmx cache (oldestKey # rest) =
     (if length cache > mmx
      then evictOldest mmx (AList.delete oldestKey cache) rest
      else Some (cache, oldestKey # rest))"

text \<open>\<^verbatim>\<open>_addToMemoryCache(key, value, metadata)\<close>.\<close>

definition addToMemoryCache ::
  "cache_key \<Rightarrow> jsval \<Rightarrow> metadata \<Rightarrow> time \<Rightarrow> manager \<Rightarrow> manager option" where
  "addToMemoryCache k v md now s =
     (let s1 = (if map_of (memoryCache s) k \<noteq> None then removeFromMemoryCache k s else s);
          cache = AList.update k
                    \<lparr> item_value = v, item_metadata = md, item_accessTime = now \<rparr>
                    (memoryCache s1);
          order = memoryAccessOrder s1 @ [k]
      in (case evictOldest (memoryMaxItems s1) cache order of
            None \<Rightarrow> None
          | Some (cache', order') \<Rightarrow>
              Some (s1\<lparr> memoryCache := cache', memoryAccessOrder := order' \<rparr>)))"

text \<open>\<^verbatim>\<open>_getFromMemoryCache(key)\<close>: null on a miss; on a hit the entry is taken out,
  stamped with the current time, put back at the end of map and order array, and its value
  returned. (\<^verbatim>\<open>if (!item)\<close> never fires: every stored item is an object.)\<close>

definition getFromMemoryCache :: "cache_key \<Rightarrow> time \<Rightarrow> manager \<Rightarrow> jsval \<times> manager" where
  "getFromMemoryCache k now s =
     (case map_of (memoryCache s) k of
        None \<Rightarrow> (JNull, s)
      | Some item \<Rightarrow>
          (let s1 = removeFromMemoryCache k s
           in (item_value item,
               s1\<lparr> memoryCache :=
                      AList.update k (item\<lparr> item_accessTime := now \<rparr>) (memoryCache s1),
                    memoryAccessOrder := memoryAccessOrder s1 @ [k] \<rparr>)))"

text \<open>\<^verbatim>\<open>_clearMemoryCache()\<close>.\<close>

definition clearMemoryCache :: "manager \<Rightarrow> manager" where
  "clearMemoryCache s = s\<lparr> memoryCache := [], memoryAccessOrder := [] \<rparr>"

subsection \<open>L2: outcomes of IndexedDB requests\<close>

text \<open>
  What the environment answers to one request: \<open>Succeeds\<close> is the request's success
  event, \<open>Fails e\<close> its error event with \<^verbatim>\<open>request.error = e\<close> (the event then bubbles
  to the transaction; the promise is already settled by then), \<open>Aborts\<close> an abort event of
  the transaction with no request error before it. A promise whose code installs no
  handler for the event that occurs is never settled: the method does not return.
\<close>

datatype io = Succeeds | Fails error | Aborts

text \<open>The cleanup transaction of \<^verbatim>\<open>_asyncCleanup\<close>: everything succeeds, the cursor
  request fails, a delete request fails (after \<^verbatim>\<open>forEach\<close> has issued all of them; the
  failed request aborts the transaction, which undoes its deletes), or the transaction
  aborts before the cursor is exhausted.\<close>

datatype trim_io = TrimSucceeds | CursorFails error | DeleteFails error | TrimAborts

subsection \<open>Public operations\<close>

text \<open>\<^verbatim>\<open>updateAccessTime(key)\<close>, run by the \<^verbatim>\<open>setTimeout(..., 0)\<close> callbacks that
  \<^verbatim>\<open>get\<close> leaves behind (their errors are swallowed). The io is that of the
  \<^verbatim>\<open>store.get\<close> request; the \<^verbatim>\<open>put\<close> of the modified record is taken to succeed with
  it.\<close>

definition updateAccessTime ::
  "cache_key \<Rightarrow> time \<Rightarrow> io \<Rightarrow> manager \<Rightarrow> (unit completion \<times> manager) option" where
  "updateAccessTime k now req s =
     (case ensureDB s of
        Inl e \<Rightarrow> Some (Reject e, s)
      | Inr _ \<Rightarrow>
          (case req of
             Fails e \<Rightarrow> Some (Reject e, s)
           | Aborts \<Rightarrow> None
           | Succeeds \<Rightarrow>
               (case map_of (store s) k of
                  Some item \<Rightarrow>
                    Some (Resolve (),
                          s\<lparr> store := AList.update k (item\<lparr> db_accessTime := now \<rparr>) (store s) \<rparr>)
                | None \<Rightarrow> Some (Resolve (), s))))"

text \<open>\<^verbatim>\<open>get(key)\<close>. \<open>now1\<close> is the clock at the L1 lookup, \<open>now2\<close> at the L1 insert after
  an L2 hit, \<open>req\<close> the outcome of \<^verbatim>\<open>store.get(key)\<close>. The test is
  \<^verbatim>\<open>memoryResult !== null\<close>; \<^verbatim>\<open>if (result)\<close> holds for every record found.\<close>

definition get ::
  "cache_key \<Rightarrow> time \<Rightarrow> time \<Rightarrow> io \<Rightarrow> manager \<Rightarrow> (jsval completion \<times> manager) option" where
  "get k now1 now2 req s =
     (let (memoryResult, s1) = getFromMemoryCache k now1 s
      in if memoryResult \<noteq> JNull then Some (Resolve memoryResult, s1)
         else (case ensureDB s1 of
                 Inl e \<Rightarrow> Some (Reject e, s1)
               | Inr _ \<Rightarrow>
                   (case req of
                      Fails e \<Rightarrow> Some (Reject e, s1)
                    | Aborts \<Rightarrow> None
                    | Succeeds \<Rightarrow>
                        (case map_of (store s1) k of
                           Some result \<Rightarrow>
                             (case addToMemoryCache k (db_value result)
                                     \<lparr> md_type = db_type result,
                                       md_originalTimestamp = Some (db_timestamp result) \<rparr>
                                     now2 s1 of
                                None \<Rightarrow> None
                              | Some s2 \<Rightarrow> Some (Resolve (db_value result), s2))
                         | None \<Rightarrow> Some (Resolve JNull, s1)))))"

text \<open>\<^verbatim>\<open>_scheduleAsyncCleanup()\<close>: arms one 10ms timer unless one is armed or a pass is
  in progress.\<close>

definition scheduleAsyncCleanup :: "manager \<Rightarrow> manager" where
  "scheduleAsyncCleanup s =
     (if cleanupScheduled s \<or> cleanupInProgress s then s
      else s\<lparr> cleanupScheduled := True, timers := timers s + 1 \<rparr>)"

text \<open>\<^verbatim>\<open>set(key, value, type = 'unknown')\<close>. \<open>estimateSize\<close> stands for the method of
  that name (a \<^verbatim>\<open>Blob\<close> size); \<open>now1\<close> is the clock at the L1 insert, \<open>now2\<close> the
  \<^verbatim>\<open>const now\<close> of the record; \<open>req\<close> the outcome of \<^verbatim>\<open>store.put(item)\<close>.
  \<^verbatim>\<open>await this.ensureDB()\<close> stands before the \<^verbatim>\<open>try\<close>. On a failed put
  (\<open>Fails\<close>; an abort while the put is pending reaches the request as an error event,
  \<^verbatim>\<open>AbortError\<close>) the handler removes the key from L1, the promise is rejected with the
  request's error and the \<^verbatim>\<open>catch\<close> block removes the key again. An abort of the
  transaction with no request error before it (\<open>Aborts\<close>) can only come after the put's
  success event, when the commit fails: \<^verbatim>\<open>resolve()\<close> has run and \<^verbatim>\<open>set\<close> has gone on
  to \<^verbatim>\<open>_scheduleAsyncCleanup()\<close> and returned; then \<^verbatim>\<open>onabort\<close> removes the key from L1,
  its \<^verbatim>\<open>reject\<close> does nothing to the settled promise, and IndexedDB undoes the put. The
  state given for \<open>Aborts\<close> is the one after that abort event.\<close>

definition set' ::
  "(jsval \<Rightarrow> nat) \<Rightarrow> cache_key \<Rightarrow> jsval \<Rightarrow> string \<Rightarrow> time \<Rightarrow> time \<Rightarrow> io \<Rightarrow> manager
     \<Rightarrow> (unit completion \<times> manager) option" where
  "set' estimateSize k v t now1 now2 req s =
     (case addToMemoryCache k v \<lparr> md_type = t, md_originalTimestamp = None \<rparr> now1 s of
        None \<Rightarrow> None
      | Some s1 \<Rightarrow>
          (case ensureDB s1 of
             Inl e \<Rightarrow> Some (Reject e, s1)
           | Inr _ \<Rightarrow>
               (let item = \<lparr> db_key = k, db_value = v, db_type = t,
                             db_size = estimateSize v,
                             db_timestamp = now2, db_accessTime = now2 \<rparr>
                in (case req of
                      Succeeds \<Rightarrow>
                        Some (Resolve (),
                              scheduleAsyncCleanup
                                (s1\<lparr> store := AList.update k item (store s1) \<rparr>))
                    | Fails e \<Rightarrow>
                        Some (Reject e,
                              removeFromMemoryCache k (removeFromMemoryCache k s1))
                    | Aborts \<Rightarrow>
                        Some (Resolve (),
                              removeFromMemoryCache k (scheduleAsyncCleanup s1))))))"

text \<open>\<^verbatim>\<open>delete(key)\<close> and \<^verbatim>\<open>clear()\<close>: L1 first, then the store; neither promise
  has an abort handler.\<close>

definition delete ::
  "cache_key \<Rightarrow> io \<Rightarrow> manager \<Rightarrow> (unit completion \<times> manager) option" where
  "delete k req s =
     (let s1 = removeFromMemoryCache k s
      in (case ensureDB s1 of
            Inl e \<Rightarrow> Some (Reject e, s1)
          | Inr _ \<Rightarrow>
              (case req of
                 Succeeds \<Rightarrow> Some (Resolve (), s1\<lparr> store := AList.delete k (store s1) \<rparr>)
               | Fails e \<Rightarrow> Some (Reject e, s1)
               | Aborts \<Rightarrow> None)))"

definition clear :: "io \<Rightarrow> manager \<Rightarrow> (unit completion \<times> manager) option" where
  "clear req s =
     (let s1 = clearMemoryCache s
      in (case ensureDB s1 of
            Inl e \<Rightarrow> Some (Reject e, s1)
          | Inr _ \<Rightarrow>
              (case req of
                 Succeeds \<Rightarrow> Some (Resolve (), s1\<lparr> store := [] \<rparr>)
               | Fails e \<Rightarrow> Some (Reject e, s1)
               | Aborts \<Rightarrow> None)))"

subsection \<open>The eviction pass\<close>

text \<open>The cursor over the index \<^verbatim>\<open>accessTime\<close> visits the records by ascending
  access time and, among equal ones, by ascending primary key; the callback collects
  \<^verbatim>\<open>{ key, accessTime }\<close> of each (with key path \<^verbatim>\<open>key\<close> the record's key property is
  its primary key).\<close>

definition scanByAccessTime :: "(cache_key \<times> db_item) list \<Rightarrow> (cache_key \<times> time) list" where
  "scanByAccessTime st =
     map (\<lambda>(k, r). (k, db_accessTime r))
         (sort_key (\<lambda>(k, r). (db_accessTime r, k)) st)"

text \<open>\<^verbatim>\<open>items.sort((a, b) => a.accessTime - b.accessTime)\<close> (a stable sort) and
  \<^verbatim>\<open>items.slice(0, itemsToDelete)\<close>.\<close>

definition keysToDelete :: "nat \<Rightarrow> (cache_key \<times> db_item) list \<Rightarrow> cache_key list" where
  "keysToDelete itemsToDelete st =
     map fst (take itemsToDelete (sort_key snd (scanByAccessTime st)))"

text \<open>The \<^verbatim>\<open>finally\<close> block.\<close>

definition asyncCleanup_finally :: "manager \<Rightarrow> manager" where
  "asyncCleanup_finally s = s\<lparr> cleanupInProgress := False \<rparr>"

text \<open>\<^verbatim>\<open>_asyncCleanup\<close> runs in three stretches separated by IndexedDB requests. Each
  stretch either finishes the invocation (\<open>Inl\<close> its completion, the \<^verbatim>\<open>finally\<close> block
  applied where the \<^verbatim>\<open>try\<close> was entered) or leaves a continuation (\<open>Inr\<close>).\<close>

text \<open>From the call to the count request: the guard, the flag, \<^verbatim>\<open>ensureDB\<close>.\<close>

definition asyncCleanup_enter :: "manager \<Rightarrow> (unit completion + pass_phase) \<times> manager" where
  "asyncCleanup_enter s =
     (if cleanupInProgress s then (Inl (Resolve ()), s)
      else (let s1 = s\<lparr> cleanupInProgress := True \<rparr>
            in (case ensureDB s1 of
                  Inl e \<Rightarrow> (Inl (Reject e), asyncCleanup_finally s1)
                | Inr _ \<Rightarrow> (Inr AwaitingCount, s1))))"

text \<open>From the answer of \<^verbatim>\<open>store.count()\<close> to the opening of the cleanup transaction.
  An abort of the read-only transaction settles nothing: no stretch follows.\<close>

definition asyncCleanup_counted ::
  "io \<Rightarrow> manager \<Rightarrow> ((unit completion + pass_phase) \<times> manager) option" where
  "asyncCleanup_counted req s =
     (case req of
        Fails e \<Rightarrow> Some (Inl (Reject e), asyncCleanup_finally s)
      | Aborts \<Rightarrow> None
      | Succeeds \<Rightarrow>
          (let itemCount = length (store s)
           in if itemCount \<le> maxItems s then Some (Inl (Resolve ()), asyncCleanup_finally s)
              else Some (Inr (AwaitingTrim (itemCount - maxItems s)), s)))"

text \<open>The cleanup transaction: scan, sort, slice, then for each selected key the L1
  removal and the delete request.\<close>

definition asyncCleanup_trim :: "nat \<Rightarrow> trim_io \<Rightarrow> manager \<Rightarrow> unit completion \<times> manager" where
  "asyncCleanup_trim itemsToDelete req s =
     (case req of
        CursorFails e \<Rightarrow> (Reject e, asyncCleanup_finally s)
      | TrimAborts \<Rightarrow> (Reject (Error ''Cleanup transaction aborted''), asyncCleanup_finally s)
      | _ \<Rightarrow>
          (let ks = keysToDelete itemsToDelete (store s)
           in if ks = [] then (Resolve (), asyncCleanup_finally s)
              else (let s1 = fold removeFromMemoryCache ks s
                    in (case req of
                          DeleteFails e \<Rightarrow> (Reject e, asyncCleanup_finally s1)
                        | _ \<Rightarrow>
                            (Resolve (),
                             asyncCleanup_finally
                               (s1\<lparr> store := fold AList.delete ks (store s1) \<rparr>))))))"

text \<open>One invocation of \<^verbatim>\<open>_asyncCleanup\<close> with nothing else running in between.\<close>

definition asyncCleanup ::
  "io \<Rightarrow> trim_io \<Rightarrow> manager \<Rightarrow> (unit completion \<times> manager) option" where
  "asyncCleanup count_req trim_req s =
     (case asyncCleanup_enter s of
        (Inl c, s1) \<Rightarrow> Some (c, s1)
      | (Inr _, s1) \<Rightarrow>
          (case asyncCleanup_counted count_req s1 of
             None \<Rightarrow> None
           | Some (Inl c, s2) \<Rightarrow> Some (c, s2)
           | Some (Inr AwaitingCount, s2) \<Rightarrow> None
           | Some (Inr (AwaitingTrim n), s2) \<Rightarrow> Some (asyncCleanup_trim n trim_req s2)))"

subsection \<open>The event loop\<close>

text \<open>
  JavaScript runs one callback at a time; the methods interleave only where they wait.
  An event is one callback run to its next wait: a call of a public method (taken here
  together with its one IndexedDB request), a timer firing, the answer to a request of
  the eviction pass, a poller of \<^verbatim>\<open>cleanup\<close> waking up. \<open>step\<close> is \<open>None\<close> when the
  event cannot occur in the state (no timer armed, no continuation of that kind) or when
  its callback does not return.
\<close>

datatype event =
    CallGet cache_key time time io
  | CallSet cache_key jsval string time time io
  | CallDelete cache_key io
  | CallClear io
  | CallCleanup
  | AccessTimeUpdate cache_key time io
  | TimerFires
  | CountAnswered io
  | TrimAnswered trim_io
  | PollerWakes

text \<open>Entering \<^verbatim>\<open>_asyncCleanup\<close> from a callback: a continuation, if one is left, joins
  the pool.\<close>

definition startPass :: "manager \<Rightarrow> manager" where
  "startPass s =
     (case asyncCleanup_enter s of
        (Inl _, s1) \<Rightarrow> s1
      | (Inr ph, s1) \<Rightarrow> s1\<lparr> passes := passes s1 @ [ph] \<rparr>)"

text \<open>The timer callback of \<^verbatim>\<open>_scheduleAsyncCleanup\<close>.\<close>

definition timerCallback :: "manager \<Rightarrow> manager" where
  "timerCallback s =
     (let s1 = s\<lparr> cleanupScheduled := False \<rparr>
      in if cleanupInProgress s1 then s1 else startPass s1)"

text \<open>\<^verbatim>\<open>cleanup()\<close> up to its first wait: with a pass in progress it goes to sleep in the
  polling loop, otherwise it enters \<^verbatim>\<open>_asyncCleanup\<close>.\<close>

definition cleanup_call :: "manager \<Rightarrow> manager" where
  "cleanup_call s =
     (if cleanupInProgress s then s\<lparr> pollers := pollers s + 1 \<rparr>
      else startPass s)"

text \<open>A sleeping \<^verbatim>\<open>cleanup()\<close> wakes: \<^verbatim>\<open>while (this.cleanupInProgress)\<close> sleeps again,
  otherwise the statement after the loop is \<^verbatim>\<open>return\<close>.\<close>

definition cleanup_wake :: "manager \<Rightarrow> manager" where
  "cleanup_wake s =
     (if cleanupInProgress s then s
      else s\<lparr> pollers := pollers s - 1 \<rparr>)"

fun step :: "(jsval \<Rightarrow> nat) \<Rightarrow> event \<Rightarrow> manager \<Rightarrow> manager option" where
  "step est (CallGet k now1 now2 req) s = map_option snd (get k now1 now2 req s)"
| "step est (CallSet k v t now1 now2 req) s = map_option snd (set' est k v t now1 now2 req s)"
| "step est (CallDelete k req) s = map_option snd (delete k req s)"
| "step est (CallClear req) s = map_option snd (clear req s)"
| "step est CallCleanup s = Some (cleanup_call s)"
| "step est (AccessTimeUpdate k now req) s = map_option snd (updateAccessTime k now req s)"
| "step est TimerFires s =
     (if timers s = 0 then None else Some (timerCallback (s\<lparr> timers := timers s - 1 \<rparr>)))"
| "step est (CountAnswered req) s =
     (case passes s of
        AwaitingCount # rest \<Rightarrow>
          (case asyncCleanup_counted req (s\<lparr> passes := rest \<rparr>) of
             None \<Rightarrow> None
           | Some (Inl _, s1) \<Rightarrow> Some s1
           | Some (Inr ph, s1) \<Rightarrow> Some (s1\<lparr> passes := passes s1 @ [ph] \<rparr>))
      | _ \<Rightarrow> None)"
| "step est (TrimAnswered req) s =
     (case passes s of
        AwaitingTrim n # rest \<Rightarrow> Some (snd (asyncCleanup_trim n req (s\<lparr> passes := rest \<rparr>)))
      | _ \<Rightarrow> None)"
| "step est PollerWakes s =
     (if pollers s = 0 then None else Some (cleanup_wake s))"

fun run :: "(jsval \<Rightarrow> nat) \<Rightarrow> event list \<Rightarrow> manager \<Rightarrow> manager option" where
  "run est [] s = Some s"
| "run est (e # es) s = (case step est e s of None \<Rightarrow> None | Some s1 \<Rightarrow> run est es s1)"

subsection \<open>Invariants and vocabulary of the statements\<close>

text \<open>The map and the order array of L1 hold the same keys, each once.\<close>

definition l1_inv :: "manager \<Rightarrow> bool" where
  "l1_inv s \<longleftrightarrow>
     distinct (map fst (memoryCache s)) \<and> distinct (memoryAccessOrder s) \<and>
     set (memoryAccessOrder s) = fst ` set (memoryCache s)"

text \<open>The order array after \<^verbatim>\<open>key\<close> has been moved (or added) to its end, the
  most-recently-used position.\<close>

definition promoted :: "cache_key \<Rightarrow> cache_key list \<Rightarrow> cache_key list" where
  "promoted k order = remove1 k order @ [k]"

text \<open>The order array an insert of \<^verbatim>\<open>key\<close> should leave under strict LRU: the promoted
  order without its oldest entries, as many as exceed \<^verbatim>\<open>memoryMaxItems\<close>.\<close>

definition keptOrder :: "cache_key \<Rightarrow> manager \<Rightarrow> cache_key list" where
  "keptOrder k s =
     drop (length (promoted k (memoryAccessOrder s)) - memoryMaxItems s)
          (promoted k (memoryAccessOrder s))"

text \<open>The L1 invariant together with the bound.\<close>

definition l1_ok :: "manager \<Rightarrow> bool" where
  "l1_ok s \<longleftrightarrow> l1_inv s \<and> length (memoryCache s) \<le> memoryMaxItems s"

text \<open>The part of the state the eviction scheduler lives in.\<close>

definition sched :: "manager \<Rightarrow> bool \<times> bool \<times> nat \<times> pass_phase list" where
  "sched s = (cleanupInProgress s, cleanupScheduled s, timers s, passes s)"

text \<open>At most one pass is in flight and \<^verbatim>\<open>cleanupInProgress\<close> says whether one is; at
  most one timer is armed and \<^verbatim>\<open>cleanupScheduled\<close> says whether one is.\<close>

definition sched_inv :: "manager \<Rightarrow> bool" where
  "sched_inv s \<longleftrightarrow>
     length (passes s) \<le> 1 \<and> (cleanupInProgress s \<longleftrightarrow> passes s \<noteq> []) \<and>
     timers s \<le> 1 \<and> (cleanupScheduled s \<longleftrightarrow> timers s = 1)"

text \<open>A stand-in for \<^verbatim>\<open>estimateSize\<close> in examples: the \<^verbatim>\<open>Blob\<close> of a string payload
  has its length in bytes; other payloads go through \<^verbatim>\<open>JSON.stringify\<close>, which is not
  modelled (the size is only reported, never used for a decision).\<close>

definition byteLength :: "jsval \<Rightarrow> nat" where
  "byteLength v = (case v of JStr s \<Rightarrow> length s | _ \<Rightarrow> 0)"

text \<open>The keys an insert of \<^verbatim>\<open>key\<close> should evict under strict LRU: the oldest entries of
  the promoted order, as many as exceed \<^verbatim>\<open>memoryMaxItems\<close>.\<close>

definition evictedKeys :: "cache_key \<Rightarrow> manager \<Rightarrow> cache_key list" where
  "evictedKeys k s =
     take (length (promoted k (memoryAccessOrder s)) - memoryMaxItems s)
          (promoted k (memoryAccessOrder s))"

text \<open>An example state: capacity two in memory, holding \<^verbatim>\<open>a\<close> (older) and \<^verbatim>\<open>b\<close>.\<close>

definition exampleItem :: "string \<Rightarrow> time \<Rightarrow> mem_item" where
  "exampleItem x t =
     \<lparr> item_value = JStr x,
       item_metadata = \<lparr> md_type = ''t'', md_originalTimestamp = None \<rparr>,
       item_accessTime = t \<rparr>"

definition exampleL1 :: manager where
  "exampleL1 =
     (constructor 3 2 Fulfilled [])
       \<lparr> memoryCache := [(''a'', exampleItem ''x'' 1), (''b'', exampleItem ''y'' 2)],
         memoryAccessOrder := [''a'', ''b''] \<rparr>"

text \<open>The part of the state behind \<^verbatim>\<open>ensureDB\<close> and the object store.\<close>

definition l2 :: "manager \<Rightarrow> (cache_key \<times> db_item) list \<times> promise_state \<times> nat" where
  "l2 s = (store s, initPromise s, maxItems s)"

text \<open>What the persistent tier alone answers to a read of \<^verbatim>\<open>key\<close>: the rejection of
  \<^verbatim>\<open>ensureDB\<close> or of the request, the stored record's value, or null for no record
  (and nothing when the transaction aborts).\<close>

definition persistentAnswer :: "cache_key \<Rightarrow> io \<Rightarrow> manager \<Rightarrow> jsval completion option" where
  "persistentAnswer k req s =
     (case ensureDB s of
        Inl e \<Rightarrow> Some (Reject e)
      | Inr _ \<Rightarrow>
          (case req of
             Fails e \<Rightarrow> Some (Reject e)
           | Aborts \<Rightarrow> None
           | Succeeds \<Rightarrow>
               (case map_of (store s) k of
                  Some r \<Rightarrow> Some (Resolve (db_value r))
                | None \<Rightarrow> Some (Resolve JNull))))"

text \<open>\<^verbatim>\<open>store.get(key)\<close> on the object store of a state.\<close>

definition storedRecord :: "cache_key \<Rightarrow> manager \<Rightarrow> db_item option" where
  "storedRecord k s = map_of (store s) k"

text \<open>The keys an eviction pass selects in a state: \<^verbatim>\<open>itemsToDelete = itemCount - maxItems\<close>
  of them.\<close>

definition evicted :: "manager \<Rightarrow> cache_key list" where
  "evicted s = keysToDelete (length (store s) - maxItems s) (store s)"

text \<open>The array \<^verbatim>\<open>items\<close> of the cleanup transaction after the scan and the sort.\<close>

definition scanned :: "(cache_key \<times> db_item) list \<Rightarrow> (cache_key \<times> time) list" where
  "scanned st = sort_key snd (scanByAccessTime st)"

text \<open>An example state: the database holds four records from an earlier session, one
  more than \<^verbatim>\<open>maxItems\<close>; \<^verbatim>\<open>A\<close> is the least recently accessed.\<close>

definition exampleRecord :: "cache_key \<Rightarrow> time \<Rightarrow> cache_key \<times> db_item" where
  "exampleRecord k t =
     (k, \<lparr> db_key = k, db_value = JStr ''x'', db_type = ''t'', db_size = 1,
            db_timestamp = t, db_accessTime = t \<rparr>)"

definition exampleL2 :: manager where
  "exampleL2 =
     constructor 3 2 Fulfilled
       [exampleRecord ''B'' 2, exampleRecord ''A'' 1, exampleRecord ''D'' 4,
        exampleRecord ''C'' 3]"

text \<open>The three states of the eviction scheduler, read off the two flags.\<close>

datatype scheduler_state = Idle | Scheduled | Running

definition schedulerState :: "manager \<Rightarrow> scheduler_state" where
  "schedulerState s =
     (if cleanupInProgress s then Running
      else if cleanupScheduled s then Scheduled
      else Idle)"

text \<open>A run in which \<^verbatim>\<open>cleanup()\<close> is not called has no timer armed while a pass is in
  progress; this is the property that such runs keep.\<close>

definition timerIdleWhileRunning :: "manager \<Rightarrow> bool" where
  "timerIdleWhileRunning s \<longleftrightarrow> \<not> (cleanupInProgress s \<and> cleanupScheduled s)"

text \<open>The continuations the event loop still holds for the manager.\<close>

definition pending :: "manager \<Rightarrow> pass_phase list \<times> nat \<times> nat" where
  "pending s = (passes s, timers s, pollers s)"

text \<open>Example traces. Two entries are set with \<^verbatim>\<open>maxItems = 1\<close>, the timer fires and
  starts a pass, and \<^verbatim>\<open>cleanup()\<close> is called while that pass is waiting for its count.\<close>

definition cleanupDuringPass :: "event list" where
  "cleanupDuringPass =
     [CallSet ''a'' (JStr ''x'') ''t'' 1 1 Succeeds,
      CallSet ''b'' (JStr ''y'') ''t'' 2 2 Succeeds,
      TimerFires,
      CallCleanup]"

text \<open>The pass goes on: it counts two records, a third is set meanwhile, the pass deletes
  one record and ends, and the sleeping \<^verbatim>\<open>cleanup()\<close> wakes up.\<close>

definition cleanupDuringPassCompleted :: "event list" where
  "cleanupDuringPassCompleted =
     cleanupDuringPass @
     [CountAnswered Succeeds,
      CallSet ''c'' (JStr ''z'') ''t'' 3 3 Succeeds,
      TrimAnswered TrimSucceeds,
      PollerWakes]"

text \<open>A set arms the timer; \<^verbatim>\<open>cleanup()\<close> is called before it fires and its pass
  completes (one record, nothing to delete).\<close>

definition cleanupBeforeTimer :: "event list" where
  "cleanupBeforeTimer =
     [CallSet ''a'' (JStr ''x'') ''t'' 1 1 Succeeds,
      CallCleanup,
      CountAnswered Succeeds]"

section \<open>Properties\<close>

subsection \<open>The database handle\<close>

lemma db_frame [simp]:
  "db (s\<lparr> store := st \<rparr>) = db s"
  "db (s\<lparr> passes := ps \<rparr>) = db s"
  "db (s\<lparr> cleanupInProgress := b \<rparr>) = db s"
  "db (s\<lparr> cleanupScheduled := b \<rparr>) = db s"
  "db (s\<lparr> timers := n \<rparr>) = db s"
  "db (s\<lparr> pollers := n \<rparr>) = db s"
  "db (s\<lparr> memoryCache := c \<rparr>) = db s"
  "db (s\<lparr> memoryAccessOrder := ord \<rparr>) = db s"
  by (simp_all add: db_def)

subsection \<open>Association lists\<close>

lemma length_eq_of_keys:
  "distinct (map fst cache) \<Longrightarrow> distinct order \<Longrightarrow> set order = fst ` set cache
     \<Longrightarrow> length cache = length order"
  by (metis distinct_card length_map list.set_map)

lemma map_of_eq_None_keys: "map_of al k \<noteq> None \<longleftrightarrow> k \<in> fst ` set al"
  by (simp add: map_of_eq_None_iff)

lemma keys_delete: "fst ` set (AList.delete k al) = fst ` set al - {k}"
  by (induction al) (auto simp: AList.delete_eq)

lemma delete_absent: "k \<notin> fst ` set al \<Longrightarrow> AList.delete k al = al"
  by (induction al) (auto simp: AList.delete_eq)

lemma length_delete_present:
  "distinct (map fst al) \<Longrightarrow> k \<in> fst ` set al \<Longrightarrow> Suc (length (AList.delete k al)) = length al"
proof (induction al)
  case Nil
  then show ?case by simp
next
  case (Cons p al)
  show ?case
  proof (cases "fst p = k")
    case True
    then have "k \<notin> fst ` set al" using Cons.prems(1) by auto
    then have "AList.delete k al = al" by (rule delete_absent)
    then show ?thesis using True by (cases p) (simp add: AList.delete_eq)
  next
    case False
    then have "k \<in> fst ` set al" using Cons.prems(2) by auto
    then have "Suc (length (AList.delete k al)) = length al"
      using Cons.IH Cons.prems(1) by simp
    then show ?thesis using False by (cases p) (auto simp: AList.delete_eq)
  qed
qed

lemma restrict_delete_absent:
  "k \<notin> A \<Longrightarrow> AList.restrict A (AList.delete k al) = AList.restrict A al"
  by (induction al) (auto simp: AList.delete_eq AList.restrict_eq)

lemma evictOldest_inv:
  "distinct (map fst cache) \<Longrightarrow> distinct order \<Longrightarrow> set order = fst ` set cache \<Longrightarrow>
   evictOldest mmx cache order =
     Some (AList.restrict (set (drop (length order - mmx) order)) cache,
           drop (length order - mmx) order)"
proof (induction order arbitrary: cache)
  case Nil
  then show ?case by (simp add: AList.restrict_eq)
next
  case (Cons k rest)
  have len: "length cache = Suc (length rest)"
    using length_eq_of_keys[OF Cons.prems] by simp
  show ?case
  proof (cases "length cache > mmx")
    case True
    have d: "distinct (map fst (AList.delete k cache))"
      using Cons.prems(1) by (simp add: distinct_delete)
    have r: "distinct rest" and kn: "k \<notin> set rest" using Cons.prems(2) by auto
    have e: "set rest = fst ` set (AList.delete k cache)"
      using Cons.prems(3) kn by (auto simp: keys_delete)
    have n: "Suc (length rest) - mmx = Suc (length rest - mmx)" using True len by arith
    have kd: "k \<notin> set (drop (length rest - mmx) rest)" using kn by (meson in_set_dropD)
    show ?thesis
      using True Cons.IH[OF d r e] n kd by (simp add: restrict_delete_absent)
  next
    case False
    then have "Suc (length rest) - mmx = 0" using len by arith
    moreover have "AList.restrict (set (k # rest)) cache = cache"
      using Cons.prems(3) by (force simp: AList.restrict_eq filter_id_conv)
    ultimately show ?thesis using False by simp
  qed
qed


lemma l1_inv_remove: "l1_inv s \<Longrightarrow> l1_inv (removeFromMemoryCache k s)"
  by (auto simp: l1_inv_def removeFromMemoryCache_def distinct_delete keys_delete)

lemma length_remove_le:
  "length (memoryCache (removeFromMemoryCache k s)) \<le> length (memoryCache s)"
  by (simp add: removeFromMemoryCache_def length_delete_le)

lemma memoryMaxItems_remove [simp]:
  "memoryMaxItems (removeFromMemoryCache k s) = memoryMaxItems s"
  by (simp add: removeFromMemoryCache_def)

lemma remove_absent:
  "map_of (memoryCache s) k = None \<Longrightarrow> removeFromMemoryCache k s = s"
  by (simp add: removeFromMemoryCache_def)

lemma remove_twice:
  "removeFromMemoryCache k (removeFromMemoryCache k s) = removeFromMemoryCache k s"
  by (simp add: removeFromMemoryCache_def delete_conv')

text \<open>What a returning insert leaves: the bound, from the loop's exit test alone.\<close>

lemma evictOldest_bound:
  "evictOldest mmx cache order = Some (cache', order') \<Longrightarrow> length cache' \<le> mmx"
  by (induction mmx cache order rule: evictOldest.induct) (auto split: if_splits)

lemma addToMemoryCache_bound:
  "addToMemoryCache k v md now s = Some s' \<Longrightarrow>
     length (memoryCache s') \<le> memoryMaxItems s' \<and> memoryMaxItems s' = memoryMaxItems s"
  by (auto simp: addToMemoryCache_def Let_def split: option.splits if_splits
           dest: evictOldest_bound)

lemma addToMemoryCache_inv:
  assumes "l1_inv s"
  shows "addToMemoryCache k v md now s =
           Some (s\<lparr> memoryCache :=
                      AList.restrict (set (keptOrder k s))
                        (AList.update k \<lparr> item_value = v, item_metadata = md, item_accessTime = now \<rparr>
                           (AList.delete k (memoryCache s))),
                    memoryAccessOrder := keptOrder k s \<rparr>)"
proof -
  let ?it = "\<lparr> item_value = v, item_metadata = md, item_accessTime = now \<rparr>"
  let ?s1 = "if map_of (memoryCache s) k \<noteq> None then removeFromMemoryCache k s else s"
  let ?full = "promoted k (memoryAccessOrder s)"
  have c1: "memoryCache ?s1 = AList.delete k (memoryCache s)"
    by (auto simp: removeFromMemoryCache_def map_of_eq_None_iff)
  have o1: "memoryAccessOrder ?s1 = remove1 k (memoryAccessOrder s)"
    using assms(1)
    by (auto simp: removeFromMemoryCache_def l1_inv_def map_of_eq_None_iff remove1_idem)
  have m1: "memoryMaxItems ?s1 = memoryMaxItems s" by simp
  have d: "distinct (map fst (AList.update k ?it (AList.delete k (memoryCache s))))"
    using assms(1) by (simp add: l1_inv_def distinct_update distinct_delete)
  have dfull: "distinct ?full"
    using assms(1) by (auto simp: promoted_def l1_inv_def)
  have e: "set ?full = fst ` set (AList.update k ?it (AList.delete k (memoryCache s)))"
    using assms(1) by (auto simp: promoted_def l1_inv_def dom_update keys_delete)
  have ev: "evictOldest (memoryMaxItems s)
              (AList.update k ?it (AList.delete k (memoryCache s))) ?full =
            Some (AList.restrict (set (keptOrder k s))
                    (AList.update k ?it (AList.delete k (memoryCache s))), keptOrder k s)"
    unfolding keptOrder_def by (rule evictOldest_inv[OF d dfull e])
  have s1eq: "?s1\<lparr> memoryCache := c, memoryAccessOrder := o' \<rparr> =
              s\<lparr> memoryCache := c, memoryAccessOrder := o' \<rparr>" for c o'
    by (simp add: removeFromMemoryCache_def)
  show ?thesis
    unfolding addToMemoryCache_def Let_def c1 o1 m1 
    using ev s1eq by (simp add: promoted_def)
qed


lemma distinct_promoted: "distinct order \<Longrightarrow> distinct (promoted k order)"
  by (auto simp: promoted_def)

lemma set_promoted: "distinct order \<Longrightarrow> set (promoted k order) = insert k (set order)"
  by (auto simp: promoted_def)

lemma keys_restrict: "fst ` set (AList.restrict A al) = fst ` set al \<inter> A"
  by (induction al) (auto simp: AList.restrict_eq)

lemma set_keptOrder_subset: "set (keptOrder k s) \<subseteq> set (promoted k (memoryAccessOrder s))"
  by (simp add: keptOrder_def set_drop_subset)

lemma l1_inv_add:
  assumes "l1_inv s" and "addToMemoryCache k v md now s = Some s'"
  shows "l1_inv s'"
proof -
  let ?it = "\<lparr> item_value = v, item_metadata = md, item_accessTime = now \<rparr>"
  let ?c = "AList.update k ?it (AList.delete k (memoryCache s))"
  have s': "s' = s\<lparr> memoryCache := AList.restrict (set (keptOrder k s)) ?c,
                     memoryAccessOrder := keptOrder k s \<rparr>"
    using assms addToMemoryCache_inv[OF assms(1), of k v md now] by simp
  have d: "distinct (map fst ?c)"
    using assms(1) by (simp add: l1_inv_def distinct_update distinct_delete)
  have dk: "distinct (keptOrder k s)"
    using assms(1) by (simp add: keptOrder_def l1_inv_def distinct_promoted)
  have "fst ` set ?c = set (promoted k (memoryAccessOrder s))"
    using assms(1) by (auto simp: l1_inv_def set_promoted dom_update keys_delete)
  then have "fst ` set (AList.restrict (set (keptOrder k s)) ?c) = set (keptOrder k s)"
    using set_keptOrder_subset[of k s] by (auto simp: keys_restrict)
  then show ?thesis
    using d dk by (simp add: s' l1_inv_def distinct_restr)
qed

lemma getFromMemoryCache_miss:
  "map_of (memoryCache s) k = None \<Longrightarrow> getFromMemoryCache k now s = (JNull, s)"
  by (simp add: getFromMemoryCache_def)

lemma getFromMemoryCache_hit:
  assumes "l1_inv s" and "map_of (memoryCache s) k = Some item"
  shows "getFromMemoryCache k now s =
           (item_value item,
            s\<lparr> memoryCache := AList.update k (item\<lparr> item_accessTime := now \<rparr>)
                                (AList.delete k (memoryCache s)),
               memoryAccessOrder := promoted k (memoryAccessOrder s) \<rparr>)"
  using assms by (simp add: getFromMemoryCache_def removeFromMemoryCache_def promoted_def)

lemma l1_inv_get:
  assumes "l1_inv s"
  shows "l1_inv (snd (getFromMemoryCache k now s))"
proof (cases "map_of (memoryCache s) k")
  case None
  then show ?thesis using assms by (simp add: getFromMemoryCache_miss)
next
  case (Some item)
  then have "k \<in> fst ` set (memoryCache s)" by (metis map_of_eq_None_iff option.distinct(1))
  then show ?thesis
    using assms Some
    by (auto simp: getFromMemoryCache_hit l1_inv_def distinct_update distinct_delete
          distinct_promoted set_promoted dom_update keys_delete)
qed

lemma length_get:
  assumes "l1_inv s"
  shows "length (memoryCache (snd (getFromMemoryCache k now s))) = length (memoryCache s)"
proof -
  have a: "l1_inv (snd (getFromMemoryCache k now s))" using assms by (rule l1_inv_get)
  have "set (memoryAccessOrder (snd (getFromMemoryCache k now s))) = set (memoryAccessOrder s)"
  proof (cases "map_of (memoryCache s) k")
    case None
    then show ?thesis by (simp add: getFromMemoryCache_miss)
  next
    case (Some item)
    then have "k \<in> fst ` set (memoryCache s)" by (metis map_of_eq_None_iff option.distinct(1))
    then show ?thesis using assms Some
      by (auto simp: getFromMemoryCache_hit l1_inv_def set_promoted)
  qed
  then have "length (memoryAccessOrder (snd (getFromMemoryCache k now s))) = length (memoryAccessOrder s)"
    using a assms by (metis distinct_card l1_inv_def)
  then show ?thesis
    using a assms by (metis length_eq_of_keys l1_inv_def)
qed

lemma memoryMaxItems_get [simp]:
  "memoryMaxItems (snd (getFromMemoryCache k now s)) = memoryMaxItems s"
  by (simp add: getFromMemoryCache_def removeFromMemoryCache_def split: option.splits)


lemma sched_inv_cong: "sched s' = sched s \<Longrightarrow> sched_inv s' = sched_inv s"
  by (simp add: sched_def sched_inv_def)

lemma l1_ok_cong:
  "memoryCache s' = memoryCache s \<Longrightarrow> memoryAccessOrder s' = memoryAccessOrder s \<Longrightarrow>
   memoryMaxItems s' = memoryMaxItems s \<Longrightarrow> l1_ok s' = l1_ok s"
  by (simp add: l1_ok_def l1_inv_def)

lemma l1_ok_remove: "l1_ok s \<Longrightarrow> l1_ok (removeFromMemoryCache k s)"
  using length_remove_le[of k s] by (simp add: l1_ok_def l1_inv_remove)

lemma l1_ok_add: "l1_inv s \<Longrightarrow> addToMemoryCache k v md now s = Some s' \<Longrightarrow> l1_ok s'"
  using addToMemoryCache_bound[of k v md now s s'] by (simp add: l1_ok_def l1_inv_add)

lemma l1_ok_getFrom: "l1_ok s \<Longrightarrow> l1_ok (snd (getFromMemoryCache k now s))"
  by (simp add: l1_ok_def l1_inv_get length_get)

lemma l1_ok_clearMemory: "l1_ok (clearMemoryCache s)"
  by (simp add: l1_ok_def l1_inv_def clearMemoryCache_def)

lemma l1_ok_fold_remove: "l1_ok s \<Longrightarrow> l1_ok (fold removeFromMemoryCache ks s)"
  by (induction ks arbitrary: s) (simp_all add: l1_ok_remove)

lemma sched_remove [simp]: "sched (removeFromMemoryCache k s) = sched s"
  by (simp add: sched_def removeFromMemoryCache_def)

lemma sched_fold_remove [simp]: "sched (fold removeFromMemoryCache ks s) = sched s"
  by (induction ks arbitrary: s) simp_all

lemma sched_add: "addToMemoryCache k v md now s = Some s' \<Longrightarrow> sched s' = sched s"
  by (auto simp: addToMemoryCache_def Let_def sched_def removeFromMemoryCache_def
           split: option.splits if_splits)

lemma sched_getFrom [simp]: "sched (snd (getFromMemoryCache k now s)) = sched s"
  by (simp add: getFromMemoryCache_def sched_def removeFromMemoryCache_def split: option.splits)

lemma sched_clearMemory [simp]: "sched (clearMemoryCache s) = sched s"
  by (simp add: sched_def clearMemoryCache_def)

lemma sched_store_update [simp]: "sched (s\<lparr> store := st \<rparr>) = sched s"
  by (simp add: sched_def)

lemma l1_ok_store_update [simp]: "l1_ok (s\<lparr> store := st \<rparr>) = l1_ok s"
  by (simp add: l1_ok_def l1_inv_def)

lemma l1_ok_schedule [simp]: "l1_ok (scheduleAsyncCleanup s) = l1_ok s"
  by (simp add: scheduleAsyncCleanup_def l1_ok_def l1_inv_def)

lemma l1_ok_finally [simp]: "l1_ok (asyncCleanup_finally s) = l1_ok s"
  by (simp add: asyncCleanup_finally_def l1_ok_def l1_inv_def)

lemma l1_ok_passes_update [simp]: "l1_ok (s\<lparr> passes := ps \<rparr>) = l1_ok s"
  by (simp add: l1_ok_def l1_inv_def)

lemma l1_ok_timers_update [simp]: "l1_ok (s\<lparr> timers := n \<rparr>) = l1_ok s"
  by (simp add: l1_ok_def l1_inv_def)

lemma l1_ok_pollers_update [simp]: "l1_ok (s\<lparr> pollers := n \<rparr>) = l1_ok s"
  by (simp add: l1_ok_def l1_inv_def)

lemma l1_ok_flags_update [simp]:
  "l1_ok (s\<lparr> cleanupInProgress := b \<rparr>) = l1_ok s"
  "l1_ok (s\<lparr> cleanupScheduled := b \<rparr>) = l1_ok s"
  by (simp_all add: l1_ok_def l1_inv_def)

lemma l1_ok_get: 
  assumes "l1_ok s" and "get k now1 now2 req s = Some (c, s')"
  shows "l1_ok s'"
proof -
  obtain r s1 where g: "getFromMemoryCache k now1 s = (r, s1)" by (cases "getFromMemoryCache k now1 s")
  have s1: "l1_ok s1" using l1_ok_getFrom[OF assms(1), of k now1] g by simp
  show ?thesis
  proof (cases "r \<noteq> JNull")
    case True
    then show ?thesis using assms(2) g s1 by (simp add: get_def)
  next
    case False
    then have "s' = s1 \<or> (\<exists>v md. addToMemoryCache k v md now2 s1 = Some s')"
      using assms(2) g
      by (auto simp: get_def split: sum.splits io.splits option.splits)
    then show ?thesis using s1 l1_ok_add[of s1] by (auto simp: l1_ok_def)
  qed
qed

lemma l1_ok_set:
  assumes "l1_ok s" and "set' est k v t now1 now2 req s = Some (c, s')"
  shows "l1_ok s'"
proof -
  obtain s1 where a: "addToMemoryCache k v \<lparr> md_type = t, md_originalTimestamp = None \<rparr> now1 s = Some s1"
    using assms(2) by (auto simp: set'_def split: option.splits)
  have s1: "l1_ok s1" using l1_ok_add[OF _ a] assms(1) by (simp add: l1_ok_def)
  have "s' = s1 \<or> (\<exists>st. s' = scheduleAsyncCleanup (s1\<lparr> store := st \<rparr>)) \<or>
        s' = removeFromMemoryCache k (removeFromMemoryCache k s1) \<or>
        s' = removeFromMemoryCache k (scheduleAsyncCleanup s1)"
    using assms(2) a by (auto simp: set'_def Let_def split: sum.splits io.splits)
  then show ?thesis using s1 by (auto simp: l1_ok_remove)
qed

lemma l1_ok_delete: "l1_ok s \<Longrightarrow> delete k req s = Some (c, s') \<Longrightarrow> l1_ok s'"
  by (auto simp: delete_def Let_def l1_ok_remove split: sum.splits io.splits)

lemma l1_ok_clear: "clear req s = Some (c, s') \<Longrightarrow> l1_ok s'"
  by (auto simp: clear_def Let_def l1_ok_clearMemory split: sum.splits io.splits)

lemma l1_ok_updateAccessTime:
  "l1_ok s \<Longrightarrow> updateAccessTime k now req s = Some (c, s') \<Longrightarrow> l1_ok s'"
  by (auto simp: updateAccessTime_def split: sum.splits io.splits option.splits)

lemma l1_ok_enter: "l1_ok (snd (asyncCleanup_enter s)) = l1_ok s"
  by (simp add: asyncCleanup_enter_def Let_def split: sum.splits)

lemma l1_ok_startPass: "l1_ok (startPass s) = l1_ok s"
  using l1_ok_enter[of s] by (auto simp: startPass_def split: prod.splits sum.splits)

lemma l1_ok_counted: "asyncCleanup_counted req s = Some (r, s') \<Longrightarrow> l1_ok s' = l1_ok s"
  by (auto simp: asyncCleanup_counted_def Let_def split: io.splits if_splits)

lemma l1_ok_trim: "l1_ok s \<Longrightarrow> l1_ok (snd (asyncCleanup_trim n req s))"
  by (auto simp: asyncCleanup_trim_def Let_def l1_ok_fold_remove split: trim_io.splits)

lemma l1_ok_step: "l1_ok s \<Longrightarrow> step est e s = Some s' \<Longrightarrow> l1_ok s'"
proof (cases e)
  case (CountAnswered req)
  assume a: "l1_ok s" "step est e s = Some s'"
  then show ?thesis using CountAnswered
    by (auto split: list.splits pass_phase.splits option.splits prod.splits sum.splits
             dest!: l1_ok_counted)
qed (auto simp: l1_ok_startPass cleanup_call_def cleanup_wake_def timerCallback_def l1_ok_trim Let_def
          dest: l1_ok_get l1_ok_set l1_ok_delete l1_ok_clear l1_ok_updateAccessTime
          split: if_splits list.splits pass_phase.splits)

lemma l1_ok_run: "l1_ok s \<Longrightarrow> run est es s = Some s' \<Longrightarrow> l1_ok s'"
  by (induction es arbitrary: s) (auto split: option.splits dest: l1_ok_step)

lemma l1_ok_constructor: "l1_ok (constructor mx mmx opened persisted)"
  by (simp add: l1_ok_def l1_inv_def constructor_def db_def)

lemma memoryMaxItems_add:
  "addToMemoryCache k v md now s = Some s' \<Longrightarrow> memoryMaxItems s' = memoryMaxItems s"
  by (simp add: addToMemoryCache_bound)

lemma memoryMaxItems_fold_remove [simp]:
  "memoryMaxItems (fold removeFromMemoryCache ks s) = memoryMaxItems s"
  by (induction ks arbitrary: s) simp_all

lemma memoryMaxItems_get_op:
  "get k now1 now2 req s = Some (c, s') \<Longrightarrow> memoryMaxItems s' = memoryMaxItems s"
proof -
  assume a: "get k now1 now2 req s = Some (c, s')"
  obtain r s1 where g: "getFromMemoryCache k now1 s = (r, s1)"
    by (cases "getFromMemoryCache k now1 s")
  have m: "memoryMaxItems s1 = memoryMaxItems s"
    using memoryMaxItems_get[of k now1 s] g by simp
  have "s' = s1 \<or> (\<exists>v md. addToMemoryCache k v md now2 s1 = Some s')"
    using a g by (auto simp: get_def split: if_splits sum.splits io.splits option.splits)
  then show ?thesis using m by (auto dest: memoryMaxItems_add)
qed

lemma memoryMaxItems_set_op:
  "set' est k v t now1 now2 req s = Some (c, s') \<Longrightarrow> memoryMaxItems s' = memoryMaxItems s"
proof -
  assume a: "set' est k v t now1 now2 req s = Some (c, s')"
  obtain s1 where a1: "addToMemoryCache k v \<lparr> md_type = t, md_originalTimestamp = None \<rparr> now1 s = Some s1"
    using a by (auto simp: set'_def split: option.splits)
  have "s' = s1 \<or> (\<exists>st. s' = scheduleAsyncCleanup (s1\<lparr> store := st \<rparr>)) \<or>
        s' = removeFromMemoryCache k (removeFromMemoryCache k s1) \<or>
        s' = removeFromMemoryCache k (scheduleAsyncCleanup s1)"
    using a a1 by (auto simp: set'_def Let_def split: sum.splits io.splits)
  then show ?thesis
    using memoryMaxItems_add[OF a1] by (auto simp: scheduleAsyncCleanup_def)
qed

lemma memoryMaxItems_step: "step est e s = Some s' \<Longrightarrow> memoryMaxItems s' = memoryMaxItems s"
proof (cases e)
  case (CountAnswered req)
  assume "step est e s = Some s'"
  then show ?thesis using CountAnswered
    by (auto simp: asyncCleanup_counted_def asyncCleanup_finally_def Let_def
             split: list.splits pass_phase.splits io.splits if_splits)
next
  case (TrimAnswered req)
  assume "step est e s = Some s'"
  then show ?thesis using TrimAnswered
    by (auto simp: asyncCleanup_trim_def asyncCleanup_finally_def Let_def
             split: list.splits pass_phase.splits trim_io.splits if_splits)
qed (auto simp: delete_def clear_def clearMemoryCache_def updateAccessTime_def cleanup_call_def
          cleanup_wake_def timerCallback_def startPass_def asyncCleanup_enter_def
          asyncCleanup_finally_def Let_def
        dest: memoryMaxItems_get_op memoryMaxItems_set_op
        split: if_splits sum.splits io.splits option.splits)

subsection \<open>C2: the bound of the memory tier\<close>

text \<open>
  Claim C2. In every state the manager reaches from its constructor through any sequence
  of events (calls of get, set, delete, clear and cleanup, deferred access-time updates,
  timer callbacks, the stretches of an eviction pass), the memory cache holds at most
  \<^verbatim>\<open>memoryMaxItems\<close> entries, and an insert there returns. Every insert that returns,
  from any state at all, leaves the bound established.
\<close>

theorem memory_tier_bound:
  "(run est evs (constructor mx mmx opened persisted) = Some s \<longrightarrow>
      length (memoryCache s) \<le> memoryMaxItems s \<and> memoryMaxItems s = mmx \<and>
      addToMemoryCache k v md now s \<noteq> None) \<and>
   (addToMemoryCache k v md now s0 = Some s1 \<longrightarrow>
      length (memoryCache s1) \<le> memoryMaxItems s1)"
proof (intro conjI impI)
  assume r: "run est evs (constructor mx mmx opened persisted) = Some s"
  have ok: "l1_ok s"
    using l1_ok_run[OF l1_ok_constructor r] .
  then show "length (memoryCache s) \<le> memoryMaxItems s" by (simp add: l1_ok_def)
  show "addToMemoryCache k v md now s \<noteq> None"
    using ok addToMemoryCache_inv[of s k v md now] by (simp add: l1_ok_def)
  have "memoryMaxItems s' = memoryMaxItems s0'" if "run est evs s0' = Some s'" for s0' s'
    using that
  proof (induction evs arbitrary: s0')
    case Nil
    then show ?case by simp
  next
    case (Cons e es)
    then obtain s1' where st: "step est e s0' = Some s1'" and rn: "run est es s1' = Some s'"
      by (auto split: option.splits)
    have "memoryMaxItems s1' = memoryMaxItems s0'"
      using st by (rule memoryMaxItems_step)
    then show ?case using Cons.IH[OF rn] by simp
  qed
  from this[OF r] show "memoryMaxItems s = mmx" by (simp add: constructor_def db_def)
next
  assume "addToMemoryCache k v md now s0 = Some s1"
  then show "length (memoryCache s1) \<le> memoryMaxItems s1"
    using addToMemoryCache_bound by blast
qed

theorem memory_tier_bound_witness:
  "run byteLength
     [CallSet ''a'' (JStr ''x'') ''t'' 1 1 Succeeds,
      CallSet ''b'' (JStr ''y'') ''t'' 2 2 Succeeds,
      CallGet ''a'' 3 3 Succeeds,
      CallSet ''c'' (JStr ''z'') ''t'' 4 4 Succeeds]
     (constructor 3 2 Fulfilled []) \<noteq> None \<and>
   length (memoryCache (the (run byteLength
     [CallSet ''a'' (JStr ''x'') ''t'' 1 1 Succeeds,
      CallSet ''b'' (JStr ''y'') ''t'' 2 2 Succeeds,
      CallGet ''a'' 3 3 Succeeds,
      CallSet ''c'' (JStr ''z'') ''t'' 4 4 Succeeds]
     (constructor 3 2 Fulfilled [])))) \<le> 2"
proof -
  let ?evs = "[CallSet ''a'' (JStr ''x'') ''t'' 1 1 Succeeds,
      CallSet ''b'' (JStr ''y'') ''t'' 2 2 Succeeds,
      CallGet ''a'' 3 3 Succeeds,
      CallSet ''c'' (JStr ''z'') ''t'' 4 4 Succeeds]"
  have r: "run byteLength ?evs (constructor 3 2 Fulfilled []) \<noteq> None"
    by code_simp
  then obtain s where s: "run byteLength ?evs (constructor 3 2 Fulfilled []) = Some s"
    by blast
  have t: "the (run byteLength ?evs (constructor 3 2 Fulfilled [])) = s"
    by (simp only: s option.sel)
  have "length (memoryCache s) \<le> memoryMaxItems s \<and> memoryMaxItems s = 2"
    using memory_tier_bound[of byteLength ?evs 3 2 Fulfilled "[]" s] s by blast
  then have b: "length (memoryCache s) \<le> 2" by simp
  show ?thesis
    unfolding t using r b by blast
qed

lemma map_of_restrict:
  "map_of (AList.restrict A al) k = (if k \<in> A then map_of al k else None)"
  by (simp add: restr_conv' restrict_map_def)

lemma length_promoted_new:
  "k \<notin> set order \<Longrightarrow> length (promoted k order) = Suc (length order)"
  by (simp add: promoted_def remove1_idem)

lemma evictedKeys_full:
  assumes "l1_inv s" and "map_of (memoryCache s) k = None"
    and "length (memoryCache s) = memoryMaxItems s" and "0 < memoryMaxItems s"
  shows "evictedKeys k s = [hd (memoryAccessOrder s)]"
proof -
  have len: "length (memoryAccessOrder s) = memoryMaxItems s"
    using assms(1,3) length_eq_of_keys[of "memoryCache s" "memoryAccessOrder s"]
    by (simp add: l1_inv_def)
  have "k \<notin> set (memoryAccessOrder s)"
    using assms(1,2) by (simp add: l1_inv_def map_of_eq_None_iff)
  then have p: "promoted k (memoryAccessOrder s) = memoryAccessOrder s @ [k]"
    by (simp add: promoted_def remove1_idem)
  obtain x xs where o: "memoryAccessOrder s = x # xs"
    using len assms(4) by (cases "memoryAccessOrder s") auto
  have p': "promoted k (memoryAccessOrder s) = x # xs @ [k]" using p o by simp
  have m: "memoryMaxItems s = Suc (length xs)" using len o by simp
  show ?thesis
    unfolding evictedKeys_def p' m by (simp add: o)
qed

subsection \<open>C6: strict LRU in the memory tier\<close>

text \<open>
  Claim C6. In a state where map and order array agree (every reachable state), a lookup
  that misses returns null and changes nothing; a lookup that hits returns the value and
  moves the key to the end of the order array, the most-recently-used position; an insert
  returns, and what it evicts is a prefix of the promoted order, that is the oldest keys,
  exactly as many as exceed \<^verbatim>\<open>memoryMaxItems\<close>, every other entry keeping its item. With
  a full cache and a new key that prefix is the single oldest key.
\<close>

theorem memory_tier_strict_lru:
  assumes "l1_inv s"
  shows
    "(map_of (memoryCache s) k = None \<longrightarrow> getFromMemoryCache k now s = (JNull, s)) \<and>
     (\<forall>item. map_of (memoryCache s) k = Some item \<longrightarrow>
        getFromMemoryCache k now s =
          (item_value item,
           s\<lparr> memoryCache := AList.update k (item\<lparr> item_accessTime := now \<rparr>)
                               (AList.delete k (memoryCache s)),
              memoryAccessOrder := promoted k (memoryAccessOrder s) \<rparr>) \<and>
        last (promoted k (memoryAccessOrder s)) = k) \<and>
     (\<exists>s'. addToMemoryCache k v md now s = Some s' \<and>
        promoted k (memoryAccessOrder s) = evictedKeys k s @ memoryAccessOrder s' \<and>
        length (evictedKeys k s) = length (promoted k (memoryAccessOrder s)) - memoryMaxItems s \<and>
        fst ` set (memoryCache s') = set (memoryAccessOrder s') \<and>
        length (memoryCache s') \<le> memoryMaxItems s \<and>
        (\<forall>k'. map_of (memoryCache s') k' =
           (if k' \<in> set (memoryAccessOrder s')
            then (if k' = k
                  then Some \<lparr> item_value = v, item_metadata = md, item_accessTime = now \<rparr>
                  else map_of (memoryCache s) k')
            else None)) \<and>
        (map_of (memoryCache s) k = None \<and> length (memoryCache s) = memoryMaxItems s \<and>
         0 < memoryMaxItems s \<longrightarrow> evictedKeys k s = [hd (memoryAccessOrder s)]))"
proof (intro conjI allI impI)
  show "getFromMemoryCache k now s = (JNull, s)" if "map_of (memoryCache s) k = None"
    using that by (rule getFromMemoryCache_miss)
next
  fix item assume "map_of (memoryCache s) k = Some item"
  then show "getFromMemoryCache k now s =
          (item_value item,
           s\<lparr> memoryCache := AList.update k (item\<lparr> item_accessTime := now \<rparr>)
                               (AList.delete k (memoryCache s)),
              memoryAccessOrder := promoted k (memoryAccessOrder s) \<rparr>)"
    using assms by (rule getFromMemoryCache_hit[rotated])
next
  fix item
  show "last (promoted k (memoryAccessOrder s)) = k" by (simp add: promoted_def)
next
  let ?it = "\<lparr> item_value = v, item_metadata = md, item_accessTime = now \<rparr>"
  let ?s' = "s\<lparr> memoryCache := AList.restrict (set (keptOrder k s))
                  (AList.update k ?it (AList.delete k (memoryCache s))),
                memoryAccessOrder := keptOrder k s \<rparr>"
  have a: "addToMemoryCache k v md now s = Some ?s'"
    using assms by (rule addToMemoryCache_inv)
  have inv': "l1_inv ?s'" using l1_inv_add[OF assms a] .
  have b: "length (memoryCache ?s') \<le> memoryMaxItems s"
    using addToMemoryCache_bound[OF a] by simp
  have m: "map_of (memoryCache ?s') k' =
           (if k' \<in> set (memoryAccessOrder ?s')
            then (if k' = k then Some ?it else map_of (memoryCache s) k')
            else None)" for k'
    by (simp add: map_of_restrict update_conv' delete_conv')
  have e: "evictedKeys k s = [hd (memoryAccessOrder s)]"
    if "map_of (memoryCache s) k = None \<and> length (memoryCache s) = memoryMaxItems s \<and>
         0 < memoryMaxItems s"
    using that assms by (simp add: evictedKeys_full)
  have l: "length (evictedKeys k s) = length (promoted k (memoryAccessOrder s)) - memoryMaxItems s"
    by (simp add: evictedKeys_def)
  have p: "promoted k (memoryAccessOrder s) = evictedKeys k s @ memoryAccessOrder ?s'"
    by (simp add: evictedKeys_def keptOrder_def)
  have f: "fst ` set (memoryCache ?s') = set (memoryAccessOrder ?s')"
    using inv' by (simp only: l1_inv_def)
  show "\<exists>s'. addToMemoryCache k v md now s = Some s' \<and>
        promoted k (memoryAccessOrder s) = evictedKeys k s @ memoryAccessOrder s' \<and>
        length (evictedKeys k s) = length (promoted k (memoryAccessOrder s)) - memoryMaxItems s \<and>
        fst ` set (memoryCache s') = set (memoryAccessOrder s') \<and>
        length (memoryCache s') \<le> memoryMaxItems s \<and>
        (\<forall>k'. map_of (memoryCache s') k' =
           (if k' \<in> set (memoryAccessOrder s')
            then (if k' = k
                  then Some \<lparr> item_value = v, item_metadata = md, item_accessTime = now \<rparr>
                  else map_of (memoryCache s) k')
            else None)) \<and>
        (map_of (memoryCache s) k = None \<and> length (memoryCache s) = memoryMaxItems s \<and>
         0 < memoryMaxItems s \<longrightarrow> evictedKeys k s = [hd (memoryAccessOrder s)])"
    using a p l f b m e by blast
qed


theorem memory_tier_strict_lru_witness:
  "l1_inv exampleL1 \<and>
   getFromMemoryCache ''c'' 5 exampleL1 = (JNull, exampleL1) \<and>
   fst (getFromMemoryCache ''a'' 5 exampleL1) = JStr ''x'' \<and>
   memoryAccessOrder (snd (getFromMemoryCache ''a'' 5 exampleL1)) = [''b'', ''a''] \<and>
   evictedKeys ''c'' exampleL1 = [''a''] \<and>
   map_option memoryAccessOrder
     (addToMemoryCache ''c'' (JStr ''z'') \<lparr> md_type = ''t'', md_originalTimestamp = None \<rparr> 5
        exampleL1) = Some [''b'', ''c'']"
proof -
  have inv: "l1_inv exampleL1"
    by (simp add: l1_inv_def exampleL1_def constructor_def db_def)
  have na: "map_of (memoryCache exampleL1) ''c'' = None"
    and a: "map_of (memoryCache exampleL1) ''a'' = Some (exampleItem ''x'' 1)"
    and full: "length (memoryCache exampleL1) = memoryMaxItems exampleL1"
      "0 < memoryMaxItems exampleL1"
    and pa: "promoted ''a'' (memoryAccessOrder exampleL1) = [''b'', ''a'']"
    and pc: "promoted ''c'' (memoryAccessOrder exampleL1) = [''a'', ''b'', ''c'']"
    by (simp_all add: exampleL1_def constructor_def db_def promoted_def)
  have v: "item_value (exampleItem ''x'' 1) = JStr ''x''" by (simp add: exampleItem_def)
  note t1 = memory_tier_strict_lru[OF inv, of "''c''" 5 "JStr ''z''"
              "\<lparr> md_type = ''t'', md_originalTimestamp = None \<rparr>"]
  note t2 = memory_tier_strict_lru[OF inv, of "''a''" 5 "JStr ''z''"
              "\<lparr> md_type = ''t'', md_originalTimestamp = None \<rparr>"]
  have miss: "getFromMemoryCache ''c'' 5 exampleL1 = (JNull, exampleL1)"
    using t1 na by blast
  have hit: "getFromMemoryCache ''a'' 5 exampleL1 =
          (item_value (exampleItem ''x'' 1),
           exampleL1\<lparr> memoryCache := AList.update ''a'' ((exampleItem ''x'' 1)\<lparr> item_accessTime := 5 \<rparr>)
                               (AList.delete ''a'' (memoryCache exampleL1)),
              memoryAccessOrder := promoted ''a'' (memoryAccessOrder exampleL1) \<rparr>)"
    using t2 a by blast
  have ev: "evictedKeys ''c'' exampleL1 = [hd (memoryAccessOrder exampleL1)]"
    using t1 na full by blast
  then have ev': "evictedKeys ''c'' exampleL1 = [''a'']"
    by (simp add: exampleL1_def)
  obtain s' where s': "addToMemoryCache ''c'' (JStr ''z'')
        \<lparr> md_type = ''t'', md_originalTimestamp = None \<rparr> 5 exampleL1 = Some s'"
      and o: "promoted ''c'' (memoryAccessOrder exampleL1) = evictedKeys ''c'' exampleL1 @ memoryAccessOrder s'"
    using t1 by blast
  have "memoryAccessOrder s' = [''b'', ''c'']" using o by (simp add: pc ev')
  then show ?thesis
    using inv miss ev' by (simp add: hit v pa s')
qed

subsection \<open>Reads through the two tiers\<close>

lemma l2_remove [simp]: "l2 (removeFromMemoryCache k s) = l2 s"
  by (simp add: l2_def db_def removeFromMemoryCache_def)

lemma l2_fold_remove [simp]: "l2 (fold removeFromMemoryCache ks s) = l2 s"
  by (induction ks arbitrary: s) simp_all

lemma l2_getFrom [simp]: "l2 (snd (getFromMemoryCache k now s)) = l2 s"
  by (simp add: getFromMemoryCache_def l2_def db_def removeFromMemoryCache_def split: option.splits)

lemma add_frame:
  assumes "addToMemoryCache k v md now s = Some s'"
  shows "\<exists>c ord. s' = s\<lparr> memoryCache := c, memoryAccessOrder := ord \<rparr>"
proof -
  let ?s1 = "if map_of (memoryCache s) k \<noteq> None then removeFromMemoryCache k s else s"
  have f: "?s1\<lparr> memoryCache := c, memoryAccessOrder := ord \<rparr> =
           s\<lparr> memoryCache := c, memoryAccessOrder := ord \<rparr>" for c ord
    by (simp add: removeFromMemoryCache_def)
  obtain c ord where "s' = ?s1\<lparr> memoryCache := c, memoryAccessOrder := ord \<rparr>"
    using assms unfolding addToMemoryCache_def Let_def
    by (cases "evictOldest (memoryMaxItems ?s1)
                 (AList.update k \<lparr> item_value = v, item_metadata = md, item_accessTime = now \<rparr>
                    (memoryCache ?s1))
                 (memoryAccessOrder ?s1 @ [k])") auto
  then show ?thesis using f by metis
qed

lemma l2_add: "addToMemoryCache k v md now s = Some s' \<Longrightarrow> l2 s' = l2 s"
  by (drule add_frame) (auto simp: l2_def db_def)

lemma ensureDB_l2: "l2 s' = l2 s \<Longrightarrow> ensureDB s' = ensureDB s"
  by (simp add: l2_def db_def ensureDB_def db_def)

lemma store_l2: "l2 s' = l2 s \<Longrightarrow> store s' = store s"
  by (simp add: l2_def db_def)

lemma persistentAnswer_l2:
  assumes "l2 s' = l2 s"
  shows "persistentAnswer k req s' = persistentAnswer k req s"
  unfolding persistentAnswer_def ensureDB_l2[OF assms] store_l2[OF assms] by (rule refl)

lemma add_returns: "l1_inv s \<Longrightarrow> \<exists>s'. addToMemoryCache k v md now s = Some s'"
  by (simp add: addToMemoryCache_inv)

lemma get_L1_hit:
  "fst (getFromMemoryCache k now1 s) \<noteq> JNull \<Longrightarrow>
     get k now1 now2 req s =
       Some (Resolve (fst (getFromMemoryCache k now1 s)), snd (getFromMemoryCache k now1 s))"
  by (cases "getFromMemoryCache k now1 s") (simp add: get_def)

lemma get_L2:
  assumes "l1_inv s" and "fst (getFromMemoryCache k now1 s) = JNull"
  shows "map_option fst (get k now1 now2 req s) = persistentAnswer k req s"
proof -
  obtain s1 where g: "getFromMemoryCache k now1 s = (JNull, s1)"
    using assms(2) by (cases "getFromMemoryCache k now1 s") simp
  have inv1: "l1_inv s1" using l1_inv_get[OF assms(1), of k now1] g by simp
  have l: "l2 s1 = l2 s" using l2_getFrom[of k now1 s] g by simp
  have e: "ensureDB s1 = ensureDB s" and st: "store s1 = store s"
    using ensureDB_l2[OF l] store_l2[OF l] by simp_all
  show ?thesis
  proof (cases "ensureDB s")
    case (Inl err)
    then show ?thesis using g e by (simp add: get_def persistentAnswer_def)
  next
    case (Inr u)
    show ?thesis
    proof (cases req)
      case Succeeds
      show ?thesis
      proof (cases "map_of (store s) k")
        case None
        then show ?thesis using g e st Inr Succeeds by (simp add: get_def persistentAnswer_def)
      next
        case (Some r)
        obtain s2 where "addToMemoryCache k (db_value r)
            \<lparr> md_type = db_type r, md_originalTimestamp = Some (db_timestamp r) \<rparr> now2 s1 = Some s2"
          using add_returns[OF inv1] by blast
        then show ?thesis using g e st Inr Succeeds Some
          by (simp add: get_def persistentAnswer_def)
      qed
    next
      case (Fails err)
      then show ?thesis using g e Inr by (simp add: get_def persistentAnswer_def)
    next
      case Aborts
      then show ?thesis using g e Inr by (simp add: get_def persistentAnswer_def)
    qed
  qed
qed

lemma getFrom_absent: "map_of (memoryCache s) k = None \<Longrightarrow> fst (getFromMemoryCache k now s) = JNull"
  by (simp add: getFromMemoryCache_def)

lemma getFrom_present:
  "map_of (memoryCache s) k = Some item \<Longrightarrow> fst (getFromMemoryCache k now s) = item_value item"
  by (simp add: getFromMemoryCache_def Let_def)

lemma map_of_remove_same [simp]: "map_of (memoryCache (removeFromMemoryCache k s)) k = None"
  by (simp add: removeFromMemoryCache_def delete_conv')

lemma set_cases:
  assumes "set' est k v t now1 now2 req s = Some (c, s1)"
  obtains sa where
    "addToMemoryCache k v \<lparr> md_type = t, md_originalTimestamp = None \<rparr> now1 s = Some sa"
    and "(\<exists>e. ensureDB s = Inl e \<and> c = Reject e \<and> s1 = sa) \<or>
         (ensureDB s = Inr () \<and> req = Succeeds \<and> c = Resolve () \<and>
          s1 = scheduleAsyncCleanup
                  (sa\<lparr> store := AList.update k
                         \<lparr> db_key = k, db_value = v, db_type = t, db_size = est v,
                           db_timestamp = now2, db_accessTime = now2 \<rparr> (store sa) \<rparr>)) \<or>
         (\<exists>e. ensureDB s = Inr () \<and> req = Fails e \<and> c = Reject e \<and>
          s1 = removeFromMemoryCache k sa) \<or>
         (ensureDB s = Inr () \<and> req = Aborts \<and> c = Resolve () \<and>
          s1 = removeFromMemoryCache k (scheduleAsyncCleanup sa))"
proof -
  obtain sa where a: "addToMemoryCache k v \<lparr> md_type = t, md_originalTimestamp = None \<rparr> now1 s = Some sa"
    using assms by (cases "addToMemoryCache k v \<lparr> md_type = t, md_originalTimestamp = None \<rparr> now1 s")
      (simp_all add: set'_def)
  have e: "ensureDB sa = ensureDB s" using l2_add[OF a] by (rule ensureDB_l2)
  show ?thesis
  proof (cases "ensureDB s")
    case (Inl err)
    then have "c = Reject err \<and> s1 = sa" using assms a e by (simp add: set'_def)
    then show ?thesis using that[OF a] Inl by blast
  next
    case (Inr u)
    show ?thesis
    proof (cases req)
      case Succeeds
      then show ?thesis using that[OF a] assms a e Inr by (simp add: set'_def Let_def)
    next
      case (Fails err)
      then show ?thesis using that[OF a] assms a e Inr
        by (simp add: set'_def Let_def remove_twice)
    next
      case Aborts
      then show ?thesis using that[OF a] assms a e Inr
        by (simp add: set'_def Let_def)
    qed
  qed
qed


lemma keptOrder_has_key: "0 < memoryMaxItems s \<Longrightarrow> k \<in> set (keptOrder k s)"
proof -
  assume m: "0 < memoryMaxItems s"
  let ?p = "promoted k (memoryAccessOrder s)"
  have "length ?p - memoryMaxItems s < length ?p" using m by (simp add: promoted_def)
  then have "drop (length ?p - memoryMaxItems s) ?p \<noteq> []" by simp
  then have "last (drop (length ?p - memoryMaxItems s) ?p) \<in> set (keptOrder k s)"
    unfolding keptOrder_def by (rule last_in_set)
  moreover have "last (drop (length ?p - memoryMaxItems s) ?p) = last ?p"
    using \<open>length ?p - memoryMaxItems s < length ?p\<close> by (rule last_drop)
  moreover have "last ?p = k" by (simp add: promoted_def)
  ultimately show ?thesis by simp
qed

lemma keptOrder_empty: "memoryMaxItems s = 0 \<Longrightarrow> keptOrder k s = []"
  by (simp add: keptOrder_def)

lemma add_lookup:
  assumes "l1_inv s" and "addToMemoryCache k v md now s = Some sa"
  shows "map_of (memoryCache sa) k =
           (if 0 < memoryMaxItems s
            then Some \<lparr> item_value = v, item_metadata = md, item_accessTime = now \<rparr>
            else None)"
proof -
  have "sa = s\<lparr> memoryCache := AList.restrict (set (keptOrder k s))
                  (AList.update k \<lparr> item_value = v, item_metadata = md, item_accessTime = now \<rparr>
                     (AList.delete k (memoryCache s))),
                memoryAccessOrder := keptOrder k s \<rparr>"
    using assms addToMemoryCache_inv[OF assms(1), of k v md now] by simp
  then show ?thesis
    using keptOrder_has_key[of s k] keptOrder_empty[of s k]
    by (auto simp: map_of_restrict update_conv')
qed

lemma ensureDB_ok_iff: "ensureDB s = Inr () \<longleftrightarrow> db s"
  by (simp add: ensureDB_def db_def split: promise_state.splits)


subsection \<open>C1: a value set is the value read\<close>




subsection \<open>C10: a cached null is read as a miss\<close>

text \<open>
  Claim C10. When the memory tier holds \<^verbatim>\<open>key\<close> with the value null, \<^verbatim>\<open>get\<close> does not
  answer from it: what it returns is what the persistent tier alone answers, the same as
  with the key removed from the memory tier. If the persistent tier holds no record for the
  key, or one whose value is null, the answer is also the same as with the key absent from
  both tiers; with the database open and the read succeeding that answer is null.
\<close>

theorem cached_null_is_a_miss:
  assumes "l1_inv s" and "map_of (memoryCache s) k = Some item" and "item_value item = JNull"
  shows "map_option fst (get k now1 now2 req s) = persistentAnswer k req s \<and>
         map_option fst (get k now1 now2 req s) =
           map_option fst (get k now1 now2 req (removeFromMemoryCache k s)) \<and>
         ((\<forall>r. storedRecord k s = Some r \<longrightarrow> db_value r = JNull) \<longrightarrow>
            map_option fst (get k now1 now2 req s) =
              map_option fst (get k now1 now2 req
                (removeFromMemoryCache k (s\<lparr> store := AList.delete k (store s) \<rparr>))) \<and>
            (db s \<longrightarrow> map_option fst (get k now1 now2 Succeeds s) = Some (Resolve JNull)))"
proof -
  have n: "fst (getFromMemoryCache k now1 s) = JNull"
    using assms(2,3) by (simp add: getFrom_present)
  have g: "map_option fst (get k now1 now2 req' s) = persistentAnswer k req' s" for req'
    using get_L2[OF assms(1) n] .
  let ?r = "removeFromMemoryCache k s"
  have "map_option fst (get k now1 now2 req ?r) = persistentAnswer k req ?r"
    using get_L2[OF l1_inv_remove[OF assms(1)], of k now1 k now2 req]
    by (simp add: getFrom_absent)
  then have g2: "map_option fst (get k now1 now2 req ?r) = persistentAnswer k req s"
    by (simp add: persistentAnswer_l2[OF l2_remove])
  let ?a = "removeFromMemoryCache k (s\<lparr> store := AList.delete k (store s) \<rparr>)"
  have inva: "l1_inv (s\<lparr> store := AList.delete k (store s) \<rparr>)"
    using assms(1) by (simp add: l1_inv_def)
  have "map_option fst (get k now1 now2 req ?a) = persistentAnswer k req ?a"
    using get_L2[OF l1_inv_remove[OF inva], of k now1 k now2 req]
    by (simp add: getFrom_absent)
  then have g3: "map_option fst (get k now1 now2 req ?a) =
      persistentAnswer k req (s\<lparr> store := AList.delete k (store s) \<rparr>)"
    by (simp add: persistentAnswer_l2[OF l2_remove])
  have same: "persistentAnswer k req' (s\<lparr> store := AList.delete k (store s) \<rparr>) =
              persistentAnswer k req' s"
    and null: "db s \<longrightarrow> persistentAnswer k Succeeds s = Some (Resolve JNull)"
    if "\<forall>r. storedRecord k s = Some r \<longrightarrow> db_value r = JNull" for req'
    using that
    by (auto simp: persistentAnswer_def storedRecord_def ensureDB_def db_def delete_conv'
             split: sum.splits io.splits option.splits promise_state.splits)
  show ?thesis using g g2 g3 same null by simp
qed

theorem cached_null_is_a_miss_witness:
  "l1_inv (exampleL1\<lparr> memoryCache := [(''a'', (exampleItem ''x'' 1)\<lparr> item_value := JNull \<rparr>)],
                      memoryAccessOrder := [''a''] \<rparr>) \<and>
   map_option fst (get ''a'' 5 6 Succeeds
      (exampleL1\<lparr> memoryCache := [(''a'', (exampleItem ''x'' 1)\<lparr> item_value := JNull \<rparr>)],
                   memoryAccessOrder := [''a''] \<rparr>)) = Some (Resolve JNull)"
proof -
  let ?s = "exampleL1\<lparr> memoryCache := [(''a'', (exampleItem ''x'' 1)\<lparr> item_value := JNull \<rparr>)],
                      memoryAccessOrder := [''a''] \<rparr>"
  have inv: "l1_inv ?s" by (simp add: l1_inv_def)
  have m: "map_of (memoryCache ?s) ''a'' = Some ((exampleItem ''x'' 1)\<lparr> item_value := JNull \<rparr>)"
    by simp
  have v: "item_value ((exampleItem ''x'' 1)\<lparr> item_value := JNull \<rparr>) = JNull" by simp
  have st: "\<forall>r. storedRecord ''a'' ?s = Some r \<longrightarrow> db_value r = JNull"
    by (simp add: storedRecord_def exampleL1_def constructor_def db_def)
  have d: "db ?s" by (simp add: exampleL1_def constructor_def db_def)
  show ?thesis
    using cached_null_is_a_miss[OF inv m v, of 5 6 Succeeds] st d inv by blast
qed

subsection \<open>C7: what a repeated set stores\<close>

text \<open>
  Claim C7, as the code has it. A \<^verbatim>\<open>set(k, v, t)\<close> that resolves and whose transaction
  commits leaves under \<^verbatim>\<open>k\<close> exactly the record it built: value, type and size of this
  call, and both \<^verbatim>\<open>timestamp\<close> (the creation time) and \<^verbatim>\<open>accessTime\<close> equal to the time
  of this call, whatever was stored under \<^verbatim>\<open>k\<close> before; the records of other keys are
  untouched.
\<close>

theorem set_replaces_record:
  assumes "set' est k v t now1 now2 Succeeds s = Some (Resolve (), s1)"
  shows "storedRecord k s1 =
           Some \<lparr> db_key = k, db_value = v, db_type = t, db_size = est v,
                  db_timestamp = now2, db_accessTime = now2 \<rparr> \<and>
         (\<forall>k'. k' \<noteq> k \<longrightarrow> storedRecord k' s1 = storedRecord k' s)"
proof -
  let ?md = "\<lparr> md_type = t, md_originalTimestamp = None \<rparr>"
  let ?item = "\<lparr> db_key = k, db_value = v, db_type = t, db_size = est v,
                  db_timestamp = now2, db_accessTime = now2 \<rparr>"
  obtain sa where a: "addToMemoryCache k v ?md now1 s = Some sa"
    and s1: "s1 = scheduleAsyncCleanup (sa\<lparr> store := AList.update k ?item (store sa) \<rparr>)"
    using assms by (rule set_cases) auto
  have "store sa = store s" using store_l2[OF l2_add[OF a]] .
  then have "store s1 = AList.update k ?item (store s)"
    by (simp add: s1 scheduleAsyncCleanup_def)
  then show ?thesis by (simp add: storedRecord_def update_conv')
qed

theorem set_replaces_record_witness:
  "map_option fst (set' byteLength ''k'' (JStr ''v'') ''t'' 1 2 Succeeds
                     (constructor 3 2 Fulfilled [])) = Some (Resolve ()) \<and>
   Option.bind
     (map_option snd (set' byteLength ''k'' (JStr ''v'') ''t'' 1 2 Succeeds
                        (constructor 3 2 Fulfilled [])))
     (storedRecord ''k'') =
   Some \<lparr> db_key = ''k'', db_value = JStr ''v'', db_type = ''t'', db_size = 1,
          db_timestamp = 2, db_accessTime = 2 \<rparr>"
proof -
  have r: "map_option fst (set' byteLength ''k'' (JStr ''v'') ''t'' 1 2 Succeeds
                     (constructor 3 2 Fulfilled [])) = Some (Resolve ())"
    by code_simp
  then obtain s1 where s1: "set' byteLength ''k'' (JStr ''v'') ''t'' 1 2 Succeeds
                     (constructor 3 2 Fulfilled []) = Some (Resolve (), s1)"
    by (cases "set' byteLength ''k'' (JStr ''v'') ''t'' 1 2 Succeeds
                     (constructor 3 2 Fulfilled [])") auto
  show ?thesis
    using set_replaces_record[OF s1] by (simp add: s1 byteLength_def)
qed

text \<open>C7 as written fails: \<^verbatim>\<open>k\<close> is set at time 10 and again at time 20; the stored
  \<^verbatim>\<open>timestamp\<close> is 10 after the first call and 20 after the second.\<close>

theorem createdAt_kept_counterexample:
  "map_option db_timestamp
     (Option.bind
        (run byteLength [CallSet ''k'' (JStr ''v1'') ''t'' 10 10 Succeeds]
           (constructor 1000 100 Fulfilled []))
        (storedRecord ''k'')) = Some 10 \<and>
   map_option db_timestamp
     (Option.bind
        (run byteLength [CallSet ''k'' (JStr ''v1'') ''t'' 10 10 Succeeds,
                         CallSet ''k'' (JStr ''v2'') ''t'' 20 20 Succeeds]
           (constructor 1000 100 Fulfilled []))
        (storedRecord ''k'')) = Some 20"
  by code_simp

subsection \<open>C4: a failed put\<close>

text \<open>
  Claim C4, as the code has it. With the database open, when the write of
  \<^verbatim>\<open>set(k, v, t)\<close> fails, by an error of the \<^verbatim>\<open>put\<close> request or by an abort of the
  transaction, \<^verbatim>\<open>set\<close> returns, \<^verbatim>\<open>k\<close> is absent from the memory tier afterwards and the
  object store is as before; when it is the \<^verbatim>\<open>put\<close> request that fails, \<^verbatim>\<open>set\<close>
  rejects with the error of the request. The following \<^verbatim>\<open>get(k)\<close> is therefore answered
  by the persistent tier: null when no record of \<^verbatim>\<open>k\<close> was stored before the failed
  call, and the previously stored value otherwise.
\<close>

theorem failed_put_rolls_back_memory:
  assumes "l1_inv s" and "db s" and "req \<noteq> Succeeds"
  shows "\<exists>c s1. set' est k v t now1 now2 req s = Some (c, s1) \<and>
           (\<forall>e. req = Fails e \<longrightarrow> c = Reject e) \<and>
           map_of (memoryCache s1) k = None \<and> store s1 = store s \<and>
           map_option fst (get k now3 now4 req' s1) = persistentAnswer k req' s \<and>
           map_option fst (get k now3 now4 Succeeds s1) =
             Some (Resolve (case storedRecord k s of Some r \<Rightarrow> db_value r | None \<Rightarrow> JNull))"
proof -
  let ?md = "\<lparr> md_type = t, md_originalTimestamp = None \<rparr>"
  obtain sa where a: "addToMemoryCache k v ?md now1 s = Some sa"
    using add_returns[OF assms(1)] by blast
  have ea: "ensureDB sa = Inr ()"
    using ensureDB_l2[OF l2_add[OF a]] assms(2) by (simp add: ensureDB_ok_iff)
  have inva: "l1_inv sa" using l1_inv_add[OF assms(1) a] .
  define s1 where "s1 = (case req of Aborts \<Rightarrow> removeFromMemoryCache k (scheduleAsyncCleanup sa)
                                    | _ \<Rightarrow> removeFromMemoryCache k sa)"
  define c :: "unit completion"
    where "c = (case req of Fails e \<Rightarrow> Reject e | _ \<Rightarrow> Resolve ())"
  have r: "set' est k v t now1 now2 req s = Some (c, s1)"
    using a ea assms(3)
    by (cases req) (simp_all add: set'_def Let_def remove_twice s1_def c_def)
  have cf: "\<forall>e. req = Fails e \<longrightarrow> c = Reject e" by (simp add: c_def)
  have sch: "removeFromMemoryCache k (scheduleAsyncCleanup sa) =
             scheduleAsyncCleanup (removeFromMemoryCache k sa)"
    by (simp add: removeFromMemoryCache_def scheduleAsyncCleanup_def)
  have alt: "s1 = removeFromMemoryCache k sa \<or>
             s1 = scheduleAsyncCleanup (removeFromMemoryCache k sa)"
    using sch by (cases req) (simp_all add: s1_def)
  have l2sch: "l2 (scheduleAsyncCleanup x) = l2 x" for x
    by (simp add: l2_def scheduleAsyncCleanup_def)
  have l1sch: "l1_inv (scheduleAsyncCleanup x) = l1_inv x" for x
    by (simp add: l1_inv_def scheduleAsyncCleanup_def)
  have mcsch: "memoryCache (scheduleAsyncCleanup x) = memoryCache x" for x
    by (simp add: scheduleAsyncCleanup_def)
  have l: "l2 s1 = l2 s" using alt l2_add[OF a] by (auto simp: l2sch)
  have inv1: "l1_inv s1" using alt l1_inv_remove[OF inva, of k] by (auto simp: l1sch)
  have absent: "map_of (memoryCache s1) k = None" using alt by (auto simp: mcsch)
  have g: "map_option fst (get k now3 now4 rq s1) = persistentAnswer k rq s" for rq
    using get_L2[OF inv1 getFrom_absent[OF absent], of now3 now4 rq] persistentAnswer_l2[OF l]
    by simp
  have e: "ensureDB s = Inr ()" using assms(2) by (simp add: ensureDB_ok_iff)
  have p: "persistentAnswer k Succeeds s =
             Some (Resolve (case storedRecord k s of Some r \<Rightarrow> db_value r | None \<Rightarrow> JNull))"
    using e by (simp add: persistentAnswer_def storedRecord_def split: option.splits)
  have g1: "map_option fst (get k now3 now4 Succeeds s1) =
             Some (Resolve (case storedRecord k s of Some r \<Rightarrow> db_value r | None \<Rightarrow> JNull))"
    using g[of Succeeds] p by (simp only:)
  show ?thesis
    using r cf absent store_l2[OF l] g[of req'] g1 by blast
qed

theorem failed_put_rolls_back_memory_witness:
  "l1_inv (constructor 3 2 Fulfilled []) \<and> db (constructor 3 2 Fulfilled []) \<and>
   Fails (DOMException ''QuotaExceededError'') \<noteq> Succeeds \<and>
   map_option fst (set' byteLength ''k'' (JStr ''v'') ''t'' 1 1
                     (Fails (DOMException ''QuotaExceededError''))
                     (constructor 3 2 Fulfilled [])) =
     Some (Reject (DOMException ''QuotaExceededError''))"
proof -
  have inv: "l1_inv (constructor 3 2 Fulfilled [])"
    by (simp add: l1_inv_def constructor_def)
  have d: "db (constructor 3 2 Fulfilled [])" by (simp add: constructor_def db_def)
  have n: "Fails (DOMException ''QuotaExceededError'') \<noteq> Succeeds" by simp
  obtain c s1 where r: "set' byteLength ''k'' (JStr ''v'') ''t'' 1 1
                     (Fails (DOMException ''QuotaExceededError''))
                     (constructor 3 2 Fulfilled []) = Some (c, s1)"
    and c: "\<forall>e. Fails (DOMException ''QuotaExceededError'') = Fails e \<longrightarrow> c = Reject e"
    using failed_put_rolls_back_memory[OF inv d n, of byteLength "''k''" "JStr ''v''" "''t''" 1 1]
    by blast
  have "c = Reject (DOMException ''QuotaExceededError'')" using c by blast
  then show ?thesis using inv d r by simp
qed

text \<open>C4 as written fails: \<^verbatim>\<open>k\<close> is set successfully, then set again with a failing
  \<^verbatim>\<open>put\<close>; the second call rejects, and the \<^verbatim>\<open>get(k)\<close> after it returns the first
  value, not null.\<close>

theorem failed_put_get_null_counterexample:
  "map_option fst
     (Option.bind
        (run byteLength [CallSet ''k'' (JStr ''old'') ''t'' 1 1 Succeeds]
           (constructor 1000 100 Fulfilled []))
        (set' byteLength ''k'' (JStr ''new'') ''t'' 2 2
           (Fails (DOMException ''QuotaExceededError'')))) =
     Some (Reject (DOMException ''QuotaExceededError'')) \<and>
   map_option fst
     (Option.bind
        (run byteLength [CallSet ''k'' (JStr ''old'') ''t'' 1 1 Succeeds,
                         CallSet ''k'' (JStr ''new'') ''t'' 2 2
                           (Fails (DOMException ''QuotaExceededError''))]
           (constructor 1000 100 Fulfilled []))
        (get ''k'' 3 3 Succeeds)) = Some (Resolve (JStr ''old''))"
  by code_simp

subsection \<open>C9: a database that failed to open\<close>

lemma config_get_op:
  assumes "get k now1 now2 req s = Some (c, s')"
  shows "db s' = db s \<and> initPromise s' = initPromise s"
proof -
  obtain r s1 where g: "getFromMemoryCache k now1 s = (r, s1)"
    by (cases "getFromMemoryCache k now1 s")
  have m: "l2 s1 = l2 s" using l2_getFrom[of k now1 s] g by simp
  have "s' = s1 \<or> (\<exists>v md. addToMemoryCache k v md now2 s1 = Some s')"
    using assms g by (auto simp: get_def split: if_splits sum.splits io.splits option.splits)
  then have "l2 s' = l2 s" using m by (auto dest: l2_add)
  then show ?thesis by (simp add: l2_def db_def)
qed

lemma config_set_op:
  assumes "set' est k v t now1 now2 req s = Some (c, s')"
  shows "db s' = db s \<and> initPromise s' = initPromise s"
proof -
  from assms obtain sa where a: "addToMemoryCache k v \<lparr> md_type = t, md_originalTimestamp = None \<rparr> now1 s = Some sa"
    and alt: "(\<exists>e. ensureDB s = Inl e \<and> c = Reject e \<and> s' = sa) \<or>
         (ensureDB s = Inr () \<and> req = Succeeds \<and> c = Resolve () \<and>
          s' = scheduleAsyncCleanup
                  (sa\<lparr> store := AList.update k
                         \<lparr> db_key = k, db_value = v, db_type = t, db_size = est v,
                           db_timestamp = now2, db_accessTime = now2 \<rparr> (store sa) \<rparr>)) \<or>
         (\<exists>e. ensureDB s = Inr () \<and> req = Fails e \<and> c = Reject e \<and>
          s' = removeFromMemoryCache k sa) \<or>
         (ensureDB s = Inr () \<and> req = Aborts \<and> c = Resolve () \<and>
          s' = removeFromMemoryCache k (scheduleAsyncCleanup sa))"
    by (rule set_cases)
  have "db sa = db s \<and> initPromise sa = initPromise s"
    using l2_add[OF a] by (simp add: l2_def db_def)
  then show ?thesis
    using alt by (auto simp: scheduleAsyncCleanup_def removeFromMemoryCache_def split: if_splits)
qed

lemma config_fold_remove [simp]:
  "db (fold removeFromMemoryCache ks s) = db s"
  "initPromise (fold removeFromMemoryCache ks s) = initPromise s"
  using l2_fold_remove[of ks s] by (simp_all add: l2_def db_def)

lemma config_step:
  "step est e s = Some s' \<Longrightarrow> db s' = db s \<and> initPromise s' = initPromise s"
proof (cases e)
  case (CountAnswered req)
  assume "step est e s = Some s'"
  then show ?thesis using CountAnswered
    by (auto simp: asyncCleanup_counted_def asyncCleanup_finally_def Let_def
             split: list.splits pass_phase.splits io.splits if_splits)
next
  case (TrimAnswered req)
  assume "step est e s = Some s'"
  then show ?thesis using TrimAnswered
    by (auto simp: asyncCleanup_trim_def asyncCleanup_finally_def Let_def
             split: list.splits pass_phase.splits trim_io.splits if_splits)
qed (auto simp: delete_def clear_def clearMemoryCache_def updateAccessTime_def cleanup_call_def
          cleanup_wake_def timerCallback_def startPass_def asyncCleanup_enter_def
          asyncCleanup_finally_def removeFromMemoryCache_def Let_def
        dest: config_get_op config_set_op
        split: if_splits sum.splits io.splits option.splits)

lemma config_run:
  "run est evs s = Some s' \<Longrightarrow> db s' = db s \<and> initPromise s' = initPromise s"
proof (induction evs arbitrary: s)
  case Nil
  then show ?case by simp
next
  case (Cons e es)
  then obtain s1 where st: "step est e s = Some s1" and rn: "run est es s1 = Some s'"
    by (auto split: option.splits)
  show ?case using config_step[OF st] Cons.IH[OF rn] by simp
qed

lemma memoryMaxItems_run:
  "run est evs s = Some s' \<Longrightarrow> memoryMaxItems s' = memoryMaxItems s"
proof (induction evs arbitrary: s)
  case Nil
  then show ?case by simp
next
  case (Cons e es)
  then obtain s1 where st: "step est e s = Some s1" and rn: "run est es s1 = Some s'"
    by (auto split: option.splits)
  show ?case using memoryMaxItems_step[OF st] Cons.IH[OF rn] by simp
qed

text \<open>
  Claim C9, as the code has it. When \<^verbatim>\<open>indexedDB.open\<close> has failed with error \<open>e\<close>,
  \<^verbatim>\<open>this.db\<close> stays null and \<^verbatim>\<open>initPromise\<close> stays rejected in every state reached
  afterwards. There, \<^verbatim>\<open>set(k, v, t)\<close> inserts into the memory tier and then rejects with
  \<open>e\<close>, keeping the inserted entry (if the memory tier has any capacity); \<^verbatim>\<open>get(k)\<close>
  resolves with the memory tier's value when it holds a non-null one for \<^verbatim>\<open>k\<close>, and
  rejects with \<open>e\<close> otherwise.
\<close>

theorem failed_open_rejects:
  assumes "run est evs (constructor mx mmx (Rejected e) persisted) = Some s"
  shows "\<not> db s \<and> initPromise s = Rejected e \<and>
         (\<exists>s1. set' est k v t now1 now2 req s = Some (Reject e, s1) \<and>
                map_of (memoryCache s1) k =
                  (if 0 < mmx
                   then Some \<lparr> item_value = v,
                               item_metadata = \<lparr> md_type = t, md_originalTimestamp = None \<rparr>,
                               item_accessTime = now1 \<rparr>
                   else None)) \<and>
         map_option fst (get k now3 now4 req' s) =
           Some (case map_of (memoryCache s) k of
                   None \<Rightarrow> Reject e
                 | Some item \<Rightarrow>
                     if item_value item \<noteq> JNull then Resolve (item_value item) else Reject e)"
proof -
  let ?md = "\<lparr> md_type = t, md_originalTimestamp = None \<rparr>"
  have cfg: "\<not> db s \<and> initPromise s = Rejected e"
    using config_run[OF assms] by (simp add: constructor_def db_def)
  have mm: "memoryMaxItems s = mmx"
    using memoryMaxItems_run[OF assms] by (simp add: constructor_def db_def)
  have inv: "l1_inv s"
    using l1_ok_run[OF l1_ok_constructor assms] by (simp add: l1_ok_def)
  have en: "ensureDB s = Inl e" using cfg by (simp add: ensureDB_def db_def)
  obtain sa where a: "addToMemoryCache k v ?md now1 s = Some sa"
    using add_returns[OF inv] by blast
  have "ensureDB sa = Inl e" using ensureDB_l2[OF l2_add[OF a]] en by simp
  then have st: "set' est k v t now1 now2 req s = Some (Reject e, sa)"
    using a by (simp add: set'_def)
  have lk: "map_of (memoryCache sa) k =
                  (if 0 < mmx
                   then Some \<lparr> item_value = v, item_metadata = ?md, item_accessTime = now1 \<rparr>
                   else None)"
    using add_lookup[OF inv a] mm by simp
  have pa: "persistentAnswer k req' s = Some (Reject e)"
    using en by (simp add: persistentAnswer_def)
  have g: "map_option fst (get k now3 now4 req' s) =
           Some (case map_of (memoryCache s) k of
                   None \<Rightarrow> Reject e
                 | Some item \<Rightarrow>
                     if item_value item \<noteq> JNull then Resolve (item_value item) else Reject e)"
  proof (cases "fst (getFromMemoryCache k now3 s) = JNull")
    case True
    have "map_option fst (get k now3 now4 req' s) = Some (Reject e)"
      using get_L2[OF inv True, of now4 req'] pa by simp
    moreover have "(case map_of (memoryCache s) k of
                   None \<Rightarrow> Reject e
                 | Some item \<Rightarrow>
                     if item_value item \<noteq> JNull then Resolve (item_value item) else Reject e)
                = Reject e"
      using True by (cases "map_of (memoryCache s) k") (simp_all add: getFrom_present)
    ultimately show ?thesis by simp
  next
    case False
    then obtain item where it: "map_of (memoryCache s) k = Some item"
      by (cases "map_of (memoryCache s) k") (simp_all add: getFrom_absent)
    have "item_value item \<noteq> JNull" using False it by (simp add: getFrom_present)
    then show ?thesis
      using get_L1_hit[OF False, of now4 req'] it by (simp add: getFrom_present)
  qed
  show ?thesis using cfg st lk g by blast
qed

theorem failed_open_rejects_witness:
  "run byteLength [] (constructor 3 2 (Rejected (DOMException ''UnknownError'')) []) =
     Some (constructor 3 2 (Rejected (DOMException ''UnknownError'')) []) \<and>
   map_option fst (set' byteLength ''k'' (JStr ''v'') ''t'' 1 1 Succeeds
      (constructor 3 2 (Rejected (DOMException ''UnknownError'')) [])) =
     Some (Reject (DOMException ''UnknownError'')) \<and>
   map_option fst (get ''k'' 1 1 Succeeds
      (constructor 3 2 (Rejected (DOMException ''UnknownError'')) [])) =
     Some (Reject (DOMException ''UnknownError''))"
proof -
  have r: "run byteLength [] (constructor 3 2 (Rejected (DOMException ''UnknownError'')) []) =
     Some (constructor 3 2 (Rejected (DOMException ''UnknownError'')) [])"
    by simp
  have m: "map_of (memoryCache (constructor 3 2 (Rejected (DOMException ''UnknownError'')) [])) ''k'' = None"
    by (simp add: constructor_def db_def)
  note t = failed_open_rejects[OF r, of "''k''" "JStr ''v''" "''t''" 1 1 Succeeds 1 1 Succeeds]
  obtain s1 where "set' byteLength ''k'' (JStr ''v'') ''t'' 1 1 Succeeds
      (constructor 3 2 (Rejected (DOMException ''UnknownError'')) []) =
     Some (Reject (DOMException ''UnknownError''), s1)"
    using t by blast
  moreover have "map_option fst (get ''k'' 1 1 Succeeds
      (constructor 3 2 (Rejected (DOMException ''UnknownError'')) [])) =
     Some (Reject (DOMException ''UnknownError''))"
    using t m by simp
  ultimately show ?thesis using r by simp
qed

text \<open>C9 as written fails: with the open request failed, \<^verbatim>\<open>set\<close> rejects with the
  open error instead of doing nothing, the \<^verbatim>\<open>get\<close> of the key just set returns its value
  from the memory tier instead of null, and the \<^verbatim>\<open>get\<close> of any other key rejects.\<close>

theorem degraded_mode_counterexample:
  "map_option fst (set' byteLength ''k'' (JStr ''v'') ''t'' 1 1 Succeeds
      (constructor 1000 100 (Rejected (DOMException ''UnknownError'')) [])) =
     Some (Reject (DOMException ''UnknownError'')) \<and>
   map_option fst
     (Option.bind
        (run byteLength [CallSet ''k'' (JStr ''v'') ''t'' 1 1 Succeeds]
           (constructor 1000 100 (Rejected (DOMException ''UnknownError'')) []))
        (get ''k'' 2 2 Succeeds)) = Some (Resolve (JStr ''v'')) \<and>
   map_option fst (get ''other'' 2 2 Succeeds
      (constructor 1000 100 (Rejected (DOMException ''UnknownError'')) [])) =
     Some (Reject (DOMException ''UnknownError''))"
  by code_simp

subsection \<open>What an eviction pass selects\<close>

lemma fold_delete_filter:
  "fold AList.delete ks al = filter (\<lambda>(k, r). k \<notin> set ks) al"
proof (induction ks arbitrary: al)
  case Nil
  then show ?case by simp
next
  case (Cons k ks)
  have "filter (\<lambda>(k', r). k' \<notin> set ks) (AList.delete k al) =
        filter (\<lambda>(k', r). k' \<notin> set (k # ks)) al"
    by (induction al) (auto simp: AList.delete_eq)
  then show ?case using Cons.IH[of "AList.delete k al"] by simp
qed

lemma map_of_filter_keys:
  "map_of (filter (\<lambda>(k, r). k \<notin> A) al) k' = (if k' \<in> A then None else map_of al k')"
  by (induction al) auto

lemma length_filter_keys:
  assumes "distinct (map fst al)" and "distinct ks" and "set ks \<subseteq> fst ` set al"
  shows "length (filter (\<lambda>(k, r). k \<notin> set ks) al) = length al - length ks"
proof -
  have "length (filter (\<lambda>(k, r). k \<notin> set ks) al) =
        length (filter (\<lambda>k. k \<notin> set ks) (map fst al))"
    by (induction al) auto
  also have "\<dots> = card (set (map fst al) - set ks)"
    using assms(1) by (metis distinct_card distinct_filter set_diff_eq set_filter)
  also have "\<dots> = card (set (map fst al)) - card (set ks)"
    using assms(3) by (simp add: card_Diff_subset)
  also have "\<dots> = length al - length ks"
    using assms(1,2) by (metis distinct_card length_map)
  finally show ?thesis .
qed

lemma memoryCache_remove:
  "memoryCache (removeFromMemoryCache k s) = AList.delete k (memoryCache s)"
  by (simp add: removeFromMemoryCache_def map_of_eq_None_iff delete_absent)

lemma memoryCache_fold_remove:
  "memoryCache (fold removeFromMemoryCache ks s) = fold AList.delete ks (memoryCache s)"
  by (induction ks arbitrary: s) (simp_all add: memoryCache_remove)

lemma cleanupInProgress_fold_remove [simp]:
  "cleanupInProgress (fold removeFromMemoryCache ks s) = cleanupInProgress s"
  using sched_fold_remove[of ks s] by (simp add: sched_def)

lemma mset_scanned: "mset (scanned st) = mset (map (\<lambda>(k, r). (k, db_accessTime r)) st)"
  by (simp add: scanned_def scanByAccessTime_def)

lemma set_scanned: "set (scanned st) = (\<lambda>(k, r). (k, db_accessTime r)) ` set st"
  using mset_scanned[of st] by (metis set_map set_mset_mset)

lemma length_scanned: "length (scanned st) = length st"
  using mset_scanned[of st] by (metis length_map size_mset)

lemma sorted_scanned: "sorted (map snd (scanned st))"
  by (simp add: scanned_def)

lemma keys_scanned: "mset (map fst (scanned st)) = mset (map fst st)"
proof -
  have "mset (map fst (scanned st)) = image_mset fst (mset (scanned st))" by simp
  also have "\<dots> = image_mset fst (mset (map (\<lambda>(k, r). (k, db_accessTime r)) st))"
    by (simp only: mset_scanned)
  also have "\<dots> = mset (map fst st)"
    by (simp add: image_mset.compositionality comp_def case_prod_beta)
  finally show ?thesis .
qed

lemma distinct_keys_scanned:
  "distinct (map fst st) \<Longrightarrow> distinct (map fst (scanned st))"
  using keys_scanned[of st] by (metis distinct_count_atmost_1 mset_eq_setD)

lemma keysToDelete_scanned: "keysToDelete n st = map fst (take n (scanned st))"
  by (simp add: keysToDelete_def scanned_def)

lemma take_le_drop:
  assumes "sorted (map f xs)" and "x \<in> set (take n xs)" and "y \<in> set (drop n xs)"
  shows "f x \<le> f y"
proof -
  have "sorted (map f (take n xs) @ map f (drop n xs))"
    using assms(1) by (metis append_take_drop_id map_append)
  then show ?thesis using assms(2,3) by (auto simp: sorted_append)
qed

lemma evicted_props:
  assumes "distinct (map fst st)" and "n \<le> length st"
  shows "length (keysToDelete n st) = n"
    and "distinct (keysToDelete n st)"
    and "set (keysToDelete n st) \<subseteq> fst ` set st"
proof -
  show "length (keysToDelete n st) = n"
    using assms(2) by (simp add: keysToDelete_scanned length_scanned)
  have d: "distinct (map fst (scanned st))" using assms(1) by (rule distinct_keys_scanned)
  have "map fst (scanned st) = keysToDelete n st @ map fst (drop n (scanned st))"
    by (metis keysToDelete_scanned append_take_drop_id map_append)
  then show "distinct (keysToDelete n st)" using d by (metis distinct_append)
  have "set (keysToDelete n st) \<subseteq> set (map fst (scanned st))"
    unfolding keysToDelete_scanned by (metis set_take_subset image_mono set_map)
  also have "\<dots> = fst ` set st"
    using keys_scanned[of st] by (metis mset_eq_setD set_map)
  finally show "set (keysToDelete n st) \<subseteq> fst ` set st" .
qed

lemma evicted_oldest:
  assumes "distinct (map fst st)"
    and "k \<in> set (keysToDelete n st)" and "map_of st k = Some r"
    and "k' \<notin> set (keysToDelete n st)" and "map_of st k' = Some r'"
  shows "db_accessTime r \<le> db_accessTime r'"
proof -
  let ?xs = "scanned st"
  have d: "distinct (map fst ?xs)" using assms(1) by (rule distinct_keys_scanned)
  have in1: "(k, db_accessTime r) \<in> set ?xs" and in2: "(k', db_accessTime r') \<in> set ?xs"
    using assms(3,5) by (force simp: set_scanned dest: map_of_SomeD)+
  obtain t where t: "(k, t) \<in> set (take n ?xs)"
    using assms(2) by (auto simp: keysToDelete_scanned)
  then have "(k, t) \<in> set ?xs" by (meson in_set_takeD)
  then have "t = db_accessTime r" using in1 d by (meson eq_key_imp_eq_value)
  then have a: "(k, db_accessTime r) \<in> set (take n ?xs)" using t by simp
  have "(k', db_accessTime r') \<in> set (take n ?xs) \<union> set (drop n ?xs)"
    using in2 by (metis append_take_drop_id set_append)
  moreover have "(k', db_accessTime r') \<notin> set (take n ?xs)"
    using assms(4) by (force simp: keysToDelete_scanned)
  ultimately have b: "(k', db_accessTime r') \<in> set (drop n ?xs)" by simp
  show ?thesis using take_le_drop[OF sorted_scanned a b] by simp
qed

lemma flag_reset_id: "\<not> cleanupInProgress s \<Longrightarrow> s\<lparr> cleanupInProgress := False \<rparr> = s"
  by (cases s) simp

lemma remove_flag_commute:
  "removeFromMemoryCache k (s\<lparr> cleanupInProgress := b \<rparr>) =
   (removeFromMemoryCache k s)\<lparr> cleanupInProgress := b \<rparr>"
  by (simp add: removeFromMemoryCache_def)

lemma fold_remove_flag_commute:
  "fold removeFromMemoryCache ks (s\<lparr> cleanupInProgress := b \<rparr>) =
   (fold removeFromMemoryCache ks s)\<lparr> cleanupInProgress := b \<rparr>"
  by (induction ks arbitrary: s) (simp_all add: remove_flag_commute)

lemma store_fold_remove [simp]: "store (fold removeFromMemoryCache ks s) = store s"
  using l2_fold_remove[of ks s] by (simp add: l2_def db_def)

lemma asyncCleanup_noop:
  assumes "\<not> cleanupInProgress s" and "db s" and "length (store s) \<le> maxItems s"
  shows "asyncCleanup Succeeds tr s = Some (Resolve (), s)"
  using assms
  by (simp add: asyncCleanup_def asyncCleanup_enter_def asyncCleanup_counted_def
        asyncCleanup_finally_def ensureDB_def db_def flag_reset_id)

lemma asyncCleanup_trims:
  assumes "\<not> cleanupInProgress s" and "db s" and "maxItems s < length (store s)"
    and "distinct (map fst (store s))"
  shows "asyncCleanup Succeeds TrimSucceeds s =
           Some (Resolve (),
                 (fold removeFromMemoryCache (evicted s) s)
                   \<lparr> store := fold AList.delete (evicted s) (store s) \<rparr>)"
proof -
  let ?n = "length (store s) - maxItems s"
  let ?s1 = "s\<lparr> cleanupInProgress := True \<rparr>"
  have en: "asyncCleanup_enter s = (Inr AwaitingCount, ?s1)"
    using assms(1,2) by (simp add: asyncCleanup_enter_def ensureDB_def db_def)
  have co: "asyncCleanup_counted Succeeds ?s1 = Some (Inr (AwaitingTrim ?n), ?s1)"
    using assms(3) by (simp add: asyncCleanup_counted_def)
  have "length (evicted s) = ?n"
    using evicted_props(1)[OF assms(4), of ?n] by (simp add: evicted_def)
  then have ne: "keysToDelete ?n (store s) \<noteq> []"
    using assms(3) by (auto simp: evicted_def)
  let ?r = "fold removeFromMemoryCache (evicted s) s"
  have "asyncCleanup_trim ?n TrimSucceeds ?s1 =
          (Resolve (),
           ?r\<lparr> cleanupInProgress := True, store := fold AList.delete (evicted s) (store s),
                cleanupInProgress := False \<rparr>)"
    using ne
    by (simp add: asyncCleanup_trim_def asyncCleanup_finally_def Let_def evicted_def
          fold_remove_flag_commute)
  moreover have "?r\<lparr> cleanupInProgress := True, store := fold AList.delete (evicted s) (store s),
                cleanupInProgress := False \<rparr> =
          (?r\<lparr> cleanupInProgress := False \<rparr>)\<lparr> store := fold AList.delete (evicted s) (store s) \<rparr>"
    by simp
  moreover have "?r\<lparr> cleanupInProgress := False \<rparr> = ?r"
    using assms(1) by (simp add: flag_reset_id)
  ultimately have tr: "asyncCleanup_trim ?n TrimSucceeds ?s1 =
          (Resolve (), ?r\<lparr> store := fold AList.delete (evicted s) (store s) \<rparr>)"
    by simp
  show ?thesis
    by (simp add: asyncCleanup_def en co tr)
qed

subsection \<open>The object store keeps one record per key\<close>

lemma store_get_op: "get k now1 now2 req s = Some (c, s') \<Longrightarrow> store s' = store s"
proof -
  assume a: "get k now1 now2 req s = Some (c, s')"
  obtain r s1 where g: "getFromMemoryCache k now1 s = (r, s1)"
    by (cases "getFromMemoryCache k now1 s")
  have m: "l2 s1 = l2 s" using l2_getFrom[of k now1 s] g by simp
  have "s' = s1 \<or> (\<exists>v md. addToMemoryCache k v md now2 s1 = Some s')"
    using a g by (auto simp: get_def split: if_splits sum.splits io.splits option.splits)
  then have "l2 s' = l2 s" using m by (auto dest: l2_add)
  then show ?thesis by (rule store_l2)
qed

lemma store_set_op:
  assumes "distinct (map fst (store s))" and "set' est k v t now1 now2 req s = Some (c, s')"
  shows "distinct (map fst (store s'))"
proof -
  from assms(2) obtain sa where a: "addToMemoryCache k v \<lparr> md_type = t, md_originalTimestamp = None \<rparr> now1 s = Some sa"
    and alt: "(\<exists>e. ensureDB s = Inl e \<and> c = Reject e \<and> s' = sa) \<or>
         (ensureDB s = Inr () \<and> req = Succeeds \<and> c = Resolve () \<and>
          s' = scheduleAsyncCleanup
                  (sa\<lparr> store := AList.update k
                         \<lparr> db_key = k, db_value = v, db_type = t, db_size = est v,
                           db_timestamp = now2, db_accessTime = now2 \<rparr> (store sa) \<rparr>)) \<or>
         (\<exists>e. ensureDB s = Inr () \<and> req = Fails e \<and> c = Reject e \<and>
          s' = removeFromMemoryCache k sa) \<or>
         (ensureDB s = Inr () \<and> req = Aborts \<and> c = Resolve () \<and>
          s' = removeFromMemoryCache k (scheduleAsyncCleanup sa))"
    by (rule set_cases)
  have sa: "store sa = store s" using store_l2[OF l2_add[OF a]] .
  have sch: "store (scheduleAsyncCleanup x) = store x" for x
    by (simp add: scheduleAsyncCleanup_def)
  have rm: "store (removeFromMemoryCache k x) = store x" for x
    by (simp add: removeFromMemoryCache_def)
  from alt show ?thesis
    using assms(1) by (elim disjE exE conjE) (simp_all add: sa sch rm distinct_update)
qed

lemma distinct_fold_delete:
  "distinct (map fst al) \<Longrightarrow> distinct (map fst (fold AList.delete ks al))"
  by (induction ks arbitrary: al) (simp_all add: distinct_delete)

lemma store_trim:
  "distinct (map fst (store s)) \<Longrightarrow>
   distinct (map fst (store (snd (asyncCleanup_trim n req s))))"
  by (simp add: asyncCleanup_trim_def asyncCleanup_finally_def Let_def distinct_fold_delete
           split: trim_io.splits)

lemma store_distinct_step:
  assumes "distinct (map fst (store s))" and "step est e s = Some s'"
  shows "distinct (map fst (store s'))"
proof (cases e)
  case (CallGet k now1 now2 req)
  then show ?thesis using assms by (auto dest!: store_get_op)
next
  case (CallSet k v t now1 now2 req)
  then obtain c where "set' est k v t now1 now2 req s = Some (c, s')"
    using assms(2) by auto
  then show ?thesis using assms(1) by (rule store_set_op[rotated])
next
  case (CallDelete k req)
  then show ?thesis using assms
    by (auto simp: delete_def Let_def removeFromMemoryCache_def distinct_delete
             split: sum.splits io.splits if_splits)
next
  case (CallClear req)
  then show ?thesis using assms
    by (auto simp: clear_def Let_def clearMemoryCache_def split: sum.splits io.splits)
next
  case CallCleanup
  then show ?thesis using assms
    by (auto simp: cleanup_call_def startPass_def asyncCleanup_enter_def
          asyncCleanup_finally_def Let_def split: if_splits sum.splits)
next
  case (AccessTimeUpdate k now req)
  then show ?thesis using assms
    by (auto simp: updateAccessTime_def distinct_update
             split: sum.splits io.splits option.splits)
next
  case TimerFires
  then show ?thesis using assms
    by (auto simp: timerCallback_def startPass_def asyncCleanup_enter_def
          asyncCleanup_finally_def Let_def split: if_splits sum.splits)
next
  case (CountAnswered req)
  then show ?thesis using assms
    by (auto simp: asyncCleanup_counted_def asyncCleanup_finally_def Let_def
             split: list.splits pass_phase.splits io.splits if_splits)
next
  case (TrimAnswered req)
  then obtain n rest where p: "passes s = AwaitingTrim n # rest"
    and s': "s' = snd (asyncCleanup_trim n req (s\<lparr> passes := rest \<rparr>))"
    using assms(2) by (auto split: list.splits pass_phase.splits)
  show ?thesis
    using store_trim[of "s\<lparr> passes := rest \<rparr>" n req] assms(1)
    by (simp add: s')
next
  case PollerWakes
  then show ?thesis using assms by (auto simp: cleanup_wake_def split: if_splits)
qed

lemma store_distinct_run:
  "distinct (map fst persisted) \<Longrightarrow>
   run est evs (constructor mx mmx opened persisted) = Some s \<Longrightarrow>
   distinct (map fst (store s))"
proof -
  have "distinct (map fst (store s0)) \<Longrightarrow> run est evs s0 = Some s \<Longrightarrow>
        distinct (map fst (store s))" for s0
    by (induction evs arbitrary: s0) (auto split: option.splits dest: store_distinct_step)
  from this[of "constructor mx mmx opened persisted"]
  show "distinct (map fst persisted) \<Longrightarrow>
   run est evs (constructor mx mmx opened persisted) = Some s \<Longrightarrow>
   distinct (map fst (store s))"
    by (simp add: constructor_def)
qed

subsection \<open>C3: what one eviction pass deletes\<close>

text \<open>
  Claim C3. Take a state in which no pass is in progress, the database is open and the
  object store has one record per key (as it has in every state reached from a database
  that had), and run one pass with nothing in between, its requests succeeding. If the store holds at most \<^verbatim>\<open>maxItems\<close> records, the pass changes
  nothing. Otherwise it selects exactly \<^verbatim>\<open>count - maxItems\<close> distinct keys of the store,
  every selected record being at most as recently accessed as every record it keeps; the
  selected keys are gone from the memory tier and from the store, every other key keeps
  what it had in both, and the store is left with exactly \<^verbatim>\<open>maxItems\<close> records. The
  pass ends with \<^verbatim>\<open>cleanupInProgress\<close> false.
\<close>

theorem eviction_pass_trims_to_maxItems:
  assumes "\<not> cleanupInProgress s" and "db s" and "distinct (map fst (store s))"
  shows "(length (store s) \<le> maxItems s \<longrightarrow>
            asyncCleanup Succeeds TrimSucceeds s = Some (Resolve (), s)) \<and>
         (maxItems s < length (store s) \<longrightarrow>
            (\<exists>s'. asyncCleanup Succeeds TrimSucceeds s = Some (Resolve (), s') \<and>
               length (evicted s) = length (store s) - maxItems s \<and>
               distinct (evicted s) \<and>
               set (evicted s) \<subseteq> fst ` set (store s) \<and>
               (\<forall>k r k' r'. k \<in> set (evicted s) \<and> storedRecord k s = Some r \<and>
                    k' \<notin> set (evicted s) \<and> storedRecord k' s = Some r'
                    \<longrightarrow> db_accessTime r \<le> db_accessTime r') \<and>
               (\<forall>k. storedRecord k s' =
                      (if k \<in> set (evicted s) then None else storedRecord k s)) \<and>
               (\<forall>k. map_of (memoryCache s') k =
                      (if k \<in> set (evicted s) then None else map_of (memoryCache s) k)) \<and>
               length (store s') = maxItems s \<and>
               \<not> cleanupInProgress s'))"
proof (intro conjI impI)
  assume "length (store s) \<le> maxItems s"
  then show "asyncCleanup Succeeds TrimSucceeds s = Some (Resolve (), s)"
    using assms(1,2) by (simp add: asyncCleanup_noop)
next
  assume big: "maxItems s < length (store s)"
  let ?n = "length (store s) - maxItems s"
  let ?s' = "(fold removeFromMemoryCache (evicted s) s)
                   \<lparr> store := fold AList.delete (evicted s) (store s) \<rparr>"
  have run: "asyncCleanup Succeeds TrimSucceeds s = Some (Resolve (), ?s')"
    using assms big by (simp add: asyncCleanup_trims)
  have n: "?n \<le> length (store s)" by simp
  have len: "length (evicted s) = ?n"
    and dis: "distinct (evicted s)"
    and sub: "set (evicted s) \<subseteq> fst ` set (store s)"
    using evicted_props[OF assms(3) n] by (simp_all add: evicted_def)
  have old: "\<forall>k r k' r'. k \<in> set (evicted s) \<and> storedRecord k s = Some r \<and>
                    k' \<notin> set (evicted s) \<and> storedRecord k' s = Some r'
                    \<longrightarrow> db_accessTime r \<le> db_accessTime r'"
    using evicted_oldest[OF assms(3)] by (auto simp: evicted_def storedRecord_def)
  have st: "\<forall>k. storedRecord k ?s' = (if k \<in> set (evicted s) then None else storedRecord k s)"
    by (simp add: storedRecord_def fold_delete_filter map_of_filter_keys)
  have mem: "\<forall>k. map_of (memoryCache ?s') k =
                      (if k \<in> set (evicted s) then None else map_of (memoryCache s) k)"
    by (simp add: memoryCache_fold_remove fold_delete_filter map_of_filter_keys)
  have "length (store ?s') = length (store s) - length (evicted s)"
    using length_filter_keys[OF assms(3) dis sub] by (simp add: fold_delete_filter)
  then have cnt: "length (store ?s') = maxItems s" using len big by simp
  have fl: "\<not> cleanupInProgress ?s'" using assms(1) by simp
  show "\<exists>s'. asyncCleanup Succeeds TrimSucceeds s = Some (Resolve (), s') \<and>
               length (evicted s) = length (store s) - maxItems s \<and>
               distinct (evicted s) \<and>
               set (evicted s) \<subseteq> fst ` set (store s) \<and>
               (\<forall>k r k' r'. k \<in> set (evicted s) \<and> storedRecord k s = Some r \<and>
                    k' \<notin> set (evicted s) \<and> storedRecord k' s = Some r'
                    \<longrightarrow> db_accessTime r \<le> db_accessTime r') \<and>
               (\<forall>k. storedRecord k s' =
                      (if k \<in> set (evicted s) then None else storedRecord k s)) \<and>
               (\<forall>k. map_of (memoryCache s') k =
                      (if k \<in> set (evicted s) then None else map_of (memoryCache s) k)) \<and>
               length (store s') = maxItems s \<and>
               \<not> cleanupInProgress s'"
    using run len dis sub old st mem cnt fl by blast
qed


theorem eviction_pass_trims_to_maxItems_witness:
  "\<not> cleanupInProgress exampleL2 \<and> db exampleL2 \<and> distinct (map fst (store exampleL2)) \<and>
   maxItems exampleL2 < length (store exampleL2) \<and>
   evicted exampleL2 = [''A''] \<and>
   map_option fst (asyncCleanup Succeeds TrimSucceeds exampleL2) = Some (Resolve ()) \<and>
   map_option (length \<circ> store \<circ> snd) (asyncCleanup Succeeds TrimSucceeds exampleL2) = Some 3 \<and>
   map_option (storedRecord ''A'' \<circ> snd) (asyncCleanup Succeeds TrimSucceeds exampleL2) = Some None"
proof -
  have h1: "\<not> cleanupInProgress exampleL2" and h2: "db exampleL2"
    and h3: "distinct (map fst (store exampleL2))"
    and big: "maxItems exampleL2 < length (store exampleL2)"
    and m: "maxItems exampleL2 = 3"
    by (simp_all add: exampleL2_def constructor_def db_def exampleRecord_def)
  have ev: "evicted exampleL2 = [''A'']"
    by (simp add: evicted_def keysToDelete_def scanByAccessTime_def exampleL2_def
          constructor_def db_def exampleRecord_def)
  obtain s' where r: "asyncCleanup Succeeds TrimSucceeds exampleL2 = Some (Resolve (), s')"
    and st: "\<forall>k. storedRecord k s' =
               (if k \<in> set (evicted exampleL2) then None else storedRecord k exampleL2)"
    and cnt: "length (store s') = maxItems exampleL2"
    using eviction_pass_trims_to_maxItems[OF h1 h2 h3] big by blast
  have "storedRecord ''A'' s' = None" using st ev by simp
  then show ?thesis
    using h1 h2 h3 big ev cnt m by (simp add: r)
qed

subsection \<open>The scheduler's flags along the event loop\<close>

lemma sched_get_op: "get k now1 now2 req s = Some (c, s') \<Longrightarrow> sched s' = sched s"
proof -
  assume a: "get k now1 now2 req s = Some (c, s')"
  obtain r s1 where g: "getFromMemoryCache k now1 s = (r, s1)"
    by (cases "getFromMemoryCache k now1 s")
  have m: "sched s1 = sched s" using sched_getFrom[of k now1 s] g by simp
  have "s' = s1 \<or> (\<exists>v md. addToMemoryCache k v md now2 s1 = Some s')"
    using a g by (auto simp: get_def split: if_splits sum.splits io.splits option.splits)
  then show ?thesis using m by (auto dest: sched_add)
qed

lemma sched_schedule_cong:
  "sched a = sched b \<Longrightarrow> sched (scheduleAsyncCleanup a) = sched (scheduleAsyncCleanup b)"
  by (simp add: sched_def scheduleAsyncCleanup_def)

lemma sched_set_op:
  assumes "set' est k v t now1 now2 req s = Some (c, s')"
  shows "sched s' = sched s \<or> sched s' = sched (scheduleAsyncCleanup s)"
proof -
  from assms obtain sa where a: "addToMemoryCache k v \<lparr> md_type = t, md_originalTimestamp = None \<rparr> now1 s = Some sa"
    and alt: "(\<exists>e. ensureDB s = Inl e \<and> c = Reject e \<and> s' = sa) \<or>
         (ensureDB s = Inr () \<and> req = Succeeds \<and> c = Resolve () \<and>
          s' = scheduleAsyncCleanup
                  (sa\<lparr> store := AList.update k
                         \<lparr> db_key = k, db_value = v, db_type = t, db_size = est v,
                           db_timestamp = now2, db_accessTime = now2 \<rparr> (store sa) \<rparr>)) \<or>
         (\<exists>e. ensureDB s = Inr () \<and> req = Fails e \<and> c = Reject e \<and>
          s' = removeFromMemoryCache k sa) \<or>
         (ensureDB s = Inr () \<and> req = Aborts \<and> c = Resolve () \<and>
          s' = removeFromMemoryCache k (scheduleAsyncCleanup sa))"
    by (rule set_cases)
  have sa: "sched sa = sched s" using a by (rule sched_add)
  have "sched (scheduleAsyncCleanup (sa\<lparr> store := st \<rparr>)) = sched (scheduleAsyncCleanup s)" for st
    by (rule sched_schedule_cong) (simp add: sa)
  moreover have "sched (scheduleAsyncCleanup sa) = sched (scheduleAsyncCleanup s)"
    using sa by (rule sched_schedule_cong)
  ultimately show ?thesis using alt sa by auto
qed

lemma sched_delete_op: "delete k req s = Some (c, s') \<Longrightarrow> sched s' = sched s"
  by (auto simp: delete_def Let_def split: sum.splits io.splits)

lemma sched_clear_op: "clear req s = Some (c, s') \<Longrightarrow> sched s' = sched s"
  by (auto simp: clear_def Let_def split: sum.splits io.splits)

lemma sched_updateAccessTime: "updateAccessTime k now req s = Some (c, s') \<Longrightarrow> sched s' = sched s"
  by (auto simp: updateAccessTime_def split: sum.splits io.splits option.splits)

lemma sched_inv_schedule: "sched_inv s \<Longrightarrow> sched_inv (scheduleAsyncCleanup s)"
  by (auto simp: sched_inv_def scheduleAsyncCleanup_def)

lemma sched_inv_startPass:
  "sched_inv s \<Longrightarrow> \<not> cleanupInProgress s \<Longrightarrow> sched_inv (startPass s)"
  by (auto simp: sched_inv_def startPass_def asyncCleanup_enter_def asyncCleanup_finally_def
        Let_def split: sum.splits)

lemma startPass_running: "cleanupInProgress s \<Longrightarrow> startPass s = s"
  by (simp add: startPass_def asyncCleanup_enter_def)

lemma sched_fields_trim:
  "cleanupInProgress (snd (asyncCleanup_trim n req s)) = False"
  "cleanupScheduled (snd (asyncCleanup_trim n req s)) = cleanupScheduled s"
  "timers (snd (asyncCleanup_trim n req s)) = timers s"
  "passes (snd (asyncCleanup_trim n req s)) = passes s"
  "pollers (snd (asyncCleanup_trim n req s)) = pollers s"
proof -
  have f: "sched (fold removeFromMemoryCache ks s) = sched s" for ks by simp
  have p: "pollers (fold removeFromMemoryCache ks s) = pollers s" for ks
    by (induction ks arbitrary: s) (simp_all add: removeFromMemoryCache_def)
  show "cleanupInProgress (snd (asyncCleanup_trim n req s)) = False"
    by (simp add: asyncCleanup_trim_def asyncCleanup_finally_def Let_def split: trim_io.splits)
  show "cleanupScheduled (snd (asyncCleanup_trim n req s)) = cleanupScheduled s"
    using f by (simp add: asyncCleanup_trim_def asyncCleanup_finally_def Let_def sched_def
                  split: trim_io.splits)
  show "timers (snd (asyncCleanup_trim n req s)) = timers s"
    using f by (simp add: asyncCleanup_trim_def asyncCleanup_finally_def Let_def sched_def
                  split: trim_io.splits)
  show "passes (snd (asyncCleanup_trim n req s)) = passes s"
    using f by (simp add: asyncCleanup_trim_def asyncCleanup_finally_def Let_def sched_def
                  split: trim_io.splits)
  show "pollers (snd (asyncCleanup_trim n req s)) = pollers s"
    using p by (simp add: asyncCleanup_trim_def asyncCleanup_finally_def Let_def
                  split: trim_io.splits)
qed

lemma sched_inv_step: "sched_inv s \<Longrightarrow> step est e s = Some s' \<Longrightarrow> sched_inv s'"
proof (cases e)
  case (CallGet k now1 now2 req)
  assume "sched_inv s" "step est e s = Some s'"
  then show ?thesis using CallGet by (auto dest!: sched_get_op sched_inv_cong)
next
  case (CallSet k v t now1 now2 req)
  assume a: "sched_inv s" "step est e s = Some s'"
  then obtain c where "set' est k v t now1 now2 req s = Some (c, s')"
    using CallSet by auto
  then have "sched s' = sched s \<or> sched s' = sched (scheduleAsyncCleanup s)"
    by (rule sched_set_op)
  then show ?thesis using a(1) sched_inv_schedule[OF a(1)] by (auto dest: sched_inv_cong)
next
  case (CallDelete k req)
  assume "sched_inv s" "step est e s = Some s'"
  then show ?thesis using CallDelete by (auto dest!: sched_delete_op sched_inv_cong)
next
  case (CallClear req)
  assume "sched_inv s" "step est e s = Some s'"
  then show ?thesis using CallClear by (auto dest!: sched_clear_op sched_inv_cong)
next
  case CallCleanup
  assume "sched_inv s" "step est e s = Some s'"
  then show ?thesis using CallCleanup
    by (auto simp: cleanup_call_def sched_inv_startPass) (simp add: sched_inv_def)
next
  case (AccessTimeUpdate k now req)
  assume "sched_inv s" "step est e s = Some s'"
  then show ?thesis using AccessTimeUpdate by (auto dest!: sched_updateAccessTime sched_inv_cong)
next
  case TimerFires
  assume a: "sched_inv s" "step est e s = Some s'"
  let ?s1 = "s\<lparr> timers := timers s - 1, cleanupScheduled := False \<rparr>"
  have t: "timers s = 1" using a TimerFires by (auto simp: sched_inv_def split: if_splits)
  have i1: "sched_inv ?s1" using a(1) t by (simp add: sched_inv_def)
  have "s' = (if cleanupInProgress ?s1 then ?s1 else startPass ?s1)"
    using a(2) TimerFires t by (auto simp: timerCallback_def Let_def)
  then show ?thesis using i1 sched_inv_startPass[OF i1] by auto
next
  case (CountAnswered req)
  assume "sched_inv s" "step est e s = Some s'"
  then show ?thesis using CountAnswered
    by (auto simp: sched_inv_def asyncCleanup_counted_def asyncCleanup_finally_def Let_def
             split: list.splits pass_phase.splits io.splits if_splits)
next
  case (TrimAnswered req)
  assume "sched_inv s" "step est e s = Some s'"
  then show ?thesis using TrimAnswered
    by (auto simp: sched_inv_def sched_fields_trim split: list.splits pass_phase.splits)
next
  case PollerWakes
  assume "sched_inv s" "step est e s = Some s'"
  then show ?thesis using PollerWakes
    by (auto simp: sched_inv_def cleanup_wake_def split: if_splits)
qed

lemma sched_inv_run: "sched_inv s \<Longrightarrow> run est evs s = Some s' \<Longrightarrow> sched_inv s'"
  by (induction evs arbitrary: s) (auto split: option.splits dest: sched_inv_step)

lemma sched_inv_constructor: "sched_inv (constructor mx mmx opened persisted)"
  by (simp add: sched_inv_def constructor_def db_def)


lemma sched_inv_passes_running: "sched_inv s \<Longrightarrow> cleanupInProgress s \<longleftrightarrow> passes s \<noteq> []"
  by (simp add: sched_inv_def)

lemma passes_sched: "sched s' = sched s \<Longrightarrow> passes s' = passes s"
  by (simp add: sched_def)

lemma passes_schedule [simp]: "passes (scheduleAsyncCleanup s) = passes s"
  by (simp add: scheduleAsyncCleanup_def)

text \<open>A step that takes the last pass out of the pool is the end of that pass.\<close>

lemma pass_completion_step:
  assumes "sched_inv s" and "step est e s = Some s'" and "passes s \<noteq> []" and "passes s' = []"
  shows "\<not> cleanupInProgress s' \<and> cleanupScheduled s' = cleanupScheduled s \<and>
         timers s' = timers s"
proof (cases e)
  case (CallGet k now1 now2 req)
  then have "passes s' = passes s" using assms(2) by (auto dest!: sched_get_op passes_sched)
  then show ?thesis using assms(3,4) by simp
next
  case (CallSet k v t now1 now2 req)
  then obtain c where "set' est k v t now1 now2 req s = Some (c, s')"
    using assms(2) by auto
  then have "sched s' = sched s \<or> sched s' = sched (scheduleAsyncCleanup s)"
    by (rule sched_set_op)
  then have "passes s' = passes s" by (auto dest!: passes_sched)
  then show ?thesis using assms(3,4) by simp
next
  case (CallDelete k req)
  then have "passes s' = passes s" using assms(2) by (auto dest!: sched_delete_op passes_sched)
  then show ?thesis using assms(3,4) by simp
next
  case (CallClear req)
  then have "passes s' = passes s" using assms(2) by (auto dest!: sched_clear_op passes_sched)
  then show ?thesis using assms(3,4) by simp
next
  case CallCleanup
  have "cleanupInProgress s" using assms(1,3) by (simp add: sched_inv_def)
  then have "passes s' = passes s" using assms(2) CallCleanup by (auto simp: cleanup_call_def)
  then show ?thesis using assms(3,4) by simp
next
  case (AccessTimeUpdate k now req)
  then have "passes s' = passes s"
    using assms(2) by (auto dest!: sched_updateAccessTime passes_sched)
  then show ?thesis using assms(3,4) by simp
next
  case TimerFires
  have "cleanupInProgress s" using assms(1,3) by (simp add: sched_inv_def)
  then have "passes s' = passes s"
    using assms(2) TimerFires by (auto simp: timerCallback_def Let_def split: if_splits)
  then show ?thesis using assms(3,4) by simp
next
  case (CountAnswered req)
  then show ?thesis using assms(2,4)
    by (auto simp: asyncCleanup_counted_def asyncCleanup_finally_def Let_def
             split: list.splits pass_phase.splits io.splits if_splits)
next
  case (TrimAnswered req)
  then show ?thesis using assms(2)
    by (auto simp: sched_fields_trim split: list.splits pass_phase.splits)
next
  case PollerWakes
  then have "passes s' = passes s"
    using assms(2) by (auto simp: cleanup_wake_def split: if_splits)
  then show ?thesis using assms(3,4) by simp
qed

lemma timerIdle_sched: "sched s' = sched s \<Longrightarrow> timerIdleWhileRunning s' = timerIdleWhileRunning s"
  by (simp add: sched_def timerIdleWhileRunning_def)

lemma timerIdle_schedule:
  "timerIdleWhileRunning s \<Longrightarrow> timerIdleWhileRunning (scheduleAsyncCleanup s)"
  by (auto simp: timerIdleWhileRunning_def scheduleAsyncCleanup_def)

lemma timerIdle_step:
  assumes "timerIdleWhileRunning s" and "step est e s = Some s'" and "e \<noteq> CallCleanup"
  shows "timerIdleWhileRunning s'"
proof (cases e)
  case (CallGet k now1 now2 req)
  then show ?thesis using assms(1,2) by (auto dest!: sched_get_op timerIdle_sched)
next
  case (CallSet k v t now1 now2 req)
  then obtain c where "set' est k v t now1 now2 req s = Some (c, s')"
    using assms(2) by auto
  then have "sched s' = sched s \<or> sched s' = sched (scheduleAsyncCleanup s)"
    by (rule sched_set_op)
  then show ?thesis
    using assms(1) timerIdle_schedule[OF assms(1)] by (auto dest!: timerIdle_sched)
next
  case (CallDelete k req)
  then show ?thesis using assms(1,2) by (auto dest!: sched_delete_op timerIdle_sched)
next
  case (CallClear req)
  then show ?thesis using assms(1,2) by (auto dest!: sched_clear_op timerIdle_sched)
next
  case CallCleanup
  then show ?thesis using assms(3) by simp
next
  case (AccessTimeUpdate k now req)
  then show ?thesis using assms(1,2) by (auto dest!: sched_updateAccessTime timerIdle_sched)
next
  case TimerFires
  then show ?thesis using assms(2)
    by (auto simp: timerIdleWhileRunning_def timerCallback_def startPass_def
          asyncCleanup_enter_def asyncCleanup_finally_def Let_def
          split: if_splits sum.splits)
next
  case (CountAnswered req)
  then show ?thesis using assms(1,2)
    by (auto simp: timerIdleWhileRunning_def asyncCleanup_counted_def asyncCleanup_finally_def
          Let_def split: list.splits pass_phase.splits io.splits if_splits)
next
  case (TrimAnswered req)
  then show ?thesis using assms(1,2)
    by (auto simp: timerIdleWhileRunning_def sched_fields_trim
          split: list.splits pass_phase.splits)
next
  case PollerWakes
  then show ?thesis using assms(1,2)
    by (auto simp: timerIdleWhileRunning_def cleanup_wake_def split: if_splits)
qed

lemma timerIdle_run:
  "timerIdleWhileRunning s \<Longrightarrow> run est evs s = Some s' \<Longrightarrow> CallCleanup \<notin> set evs
     \<Longrightarrow> timerIdleWhileRunning s'"
proof (induction evs arbitrary: s)
  case Nil
  then show ?case by simp
next
  case (Cons e es)
  then obtain s1 where st: "step est e s = Some s1" and rn: "run est es s1 = Some s'"
    by (auto split: option.splits)
  have "timerIdleWhileRunning s1"
    using timerIdle_step[OF Cons.prems(1) st] Cons.prems(3) by auto
  then show ?case using Cons.IH[OF _ rn] Cons.prems(3) by simp
qed

lemma asyncCleanup_resets_flag:
  assumes "\<not> cleanupInProgress s" and "asyncCleanup cr tr s = Some (c, s')"
  shows "\<not> cleanupInProgress s'"
proof (cases "ensureDB (s\<lparr> cleanupInProgress := True \<rparr>)")
  case (Inl err)
  then show ?thesis using assms
    by (auto simp: asyncCleanup_def asyncCleanup_enter_def asyncCleanup_finally_def Let_def)
next
  case (Inr u)
  then have en: "asyncCleanup_enter s = (Inr AwaitingCount, s\<lparr> cleanupInProgress := True \<rparr>)"
    using assms(1) by (simp add: asyncCleanup_enter_def Let_def)
  have tr: "asyncCleanup_trim n tr' s0 = (c, s') \<Longrightarrow> \<not> cleanupInProgress s'" for n tr' s0
    using sched_fields_trim(1)[of n tr' s0] by simp
  show ?thesis
    using assms(2)
    by (auto simp: asyncCleanup_def en asyncCleanup_counted_def asyncCleanup_finally_def Let_def
             split: io.splits if_splits prod.splits dest: tr)
qed


lemma run_snoc: "run est (evs @ [e]) s = Option.bind (run est evs s) (step est e)"
  by (induction evs arbitrary: s) (auto split: option.splits)

subsection \<open>C5: the eviction scheduler\<close>

text \<open>
  Claim C5, as the code has it. \<^verbatim>\<open>_scheduleAsyncCleanup\<close> changes nothing when the
  scheduler is Scheduled or Running. An invocation of \<^verbatim>\<open>_asyncCleanup\<close> that passes the
  guard and completes, resolved or rejected, leaves \<^verbatim>\<open>cleanupInProgress\<close> false. In every
  state reached from the constructor at most one pass is in flight, and the scheduler is
  Running exactly when one is. When the pass in flight ends, the scheduler is not Running:
  it is Scheduled if a timer was armed while the pass ran, and Idle otherwise; in a run
  without calls of \<^verbatim>\<open>cleanup()\<close> no timer is armed during a pass, so the scheduler is
  Idle.
\<close>

theorem scheduler_mutual_exclusion:
  "(schedulerState s0 \<noteq> Idle \<longrightarrow> scheduleAsyncCleanup s0 = s0) \<and>
   (\<not> cleanupInProgress s0 \<longrightarrow>
      (\<forall>c s1. asyncCleanup cr tr s0 = Some (c, s1) \<longrightarrow> \<not> cleanupInProgress s1)) \<and>
   (run est evs (constructor mx mmx opened persisted) = Some s \<longrightarrow>
      length (passes s) \<le> 1 \<and>
      (schedulerState s = Running \<longleftrightarrow> passes s \<noteq> []) \<and>
      (\<forall>e s'. step est e s = Some s' \<and> passes s \<noteq> [] \<and> passes s' = [] \<longrightarrow>
         schedulerState s' = (if cleanupScheduled s then Scheduled else Idle) \<and>
         (CallCleanup \<notin> set evs \<longrightarrow> schedulerState s' = Idle)))"
proof (intro conjI impI allI)
  assume "schedulerState s0 \<noteq> Idle"
  then show "scheduleAsyncCleanup s0 = s0"
    by (auto simp: schedulerState_def scheduleAsyncCleanup_def split: if_splits)
next
  fix c s1
  assume "\<not> cleanupInProgress s0" and "asyncCleanup cr tr s0 = Some (c, s1)"
  then show "\<not> cleanupInProgress s1" by (rule asyncCleanup_resets_flag)
next
  assume r: "run est evs (constructor mx mmx opened persisted) = Some s"
  have inv: "sched_inv s" using sched_inv_run[OF sched_inv_constructor r] .
  show "length (passes s) \<le> 1" using inv by (simp add: sched_inv_def)
  show "schedulerState s = Running \<longleftrightarrow> passes s \<noteq> []"
    using inv by (simp add: sched_inv_def schedulerState_def)
  fix e s'
  assume a: "step est e s = Some s' \<and> passes s \<noteq> [] \<and> passes s' = []"
  have fin: "\<not> cleanupInProgress s' \<and> cleanupScheduled s' = cleanupScheduled s"
    using pass_completion_step[OF inv] a by blast
  from fin show "schedulerState s' = (if cleanupScheduled s then Scheduled else Idle)"
    by (simp add: schedulerState_def)
  assume "CallCleanup \<notin> set evs"
  then have "timerIdleWhileRunning s"
    using timerIdle_run[OF _ r] by (simp add: timerIdleWhileRunning_def constructor_def db_def)
  moreover have "cleanupInProgress s" using inv a by (simp add: sched_inv_def)
  ultimately have "\<not> cleanupScheduled s" by (simp add: timerIdleWhileRunning_def)
  then show "schedulerState s' = Idle" using fin by (simp add: schedulerState_def)
qed

theorem scheduler_mutual_exclusion_witness:
  "map_option passes
     (run byteLength [CallSet ''a'' (JStr ''x'') ''t'' 1 1 Succeeds, TimerFires]
        (constructor 3 2 Fulfilled [])) = Some [AwaitingCount] \<and>
   CallCleanup \<notin> set [CallSet ''a'' (JStr ''x'') ''t'' 1 1 Succeeds, TimerFires] \<and>
   map_option passes
     (run byteLength ([CallSet ''a'' (JStr ''x'') ''t'' 1 1 Succeeds, TimerFires] @
                      [CountAnswered Succeeds])
        (constructor 3 2 Fulfilled [])) = Some [] \<and>
   map_option schedulerState
     (run byteLength ([CallSet ''a'' (JStr ''x'') ''t'' 1 1 Succeeds, TimerFires] @
                      [CountAnswered Succeeds])
        (constructor 3 2 Fulfilled [])) = Some Idle"
proof -
  let ?evs = "[CallSet ''a'' (JStr ''x'') ''t'' 1 1 Succeeds, TimerFires]"
  let ?init = "constructor 3 2 Fulfilled []"
  have p: "map_option passes (run byteLength ?evs ?init) = Some [AwaitingCount]"
    by code_simp
  have q: "map_option passes (run byteLength (?evs @ [CountAnswered Succeeds]) ?init) = Some []"
    by code_simp
  have n: "CallCleanup \<notin> set ?evs" by simp
  obtain s where s: "run byteLength ?evs ?init = Some s" and ps: "passes s = [AwaitingCount]"
    using p by (cases "run byteLength ?evs ?init") auto
  obtain s' where s': "step byteLength (CountAnswered Succeeds) s = Some s'"
    and ps': "passes s' = []"
    using q unfolding run_snoc s by (cases "step byteLength (CountAnswered Succeeds) s") auto
  have ne: "passes s \<noteq> []" using ps by simp
  have "schedulerState s' = Idle"
    using scheduler_mutual_exclusion[of s Succeeds TrimSucceeds byteLength ?evs 3 2 Fulfilled "[]" s]
      s s' ne ps' n
    by blast
  moreover have "run byteLength (?evs @ [CountAnswered Succeeds]) ?init = Some s'"
    unfolding run_snoc s using s' by simp
  ultimately have "map_option schedulerState
     (run byteLength (?evs @ [CountAnswered Succeeds]) ?init) = Some Idle"
    by (simp only: option.map)
  then show ?thesis using p q n by blast
qed

text \<open>C5 as written fails in its last part: a \<^verbatim>\<open>set\<close> arms the timer, \<^verbatim>\<open>cleanup()\<close>
  starts a pass before the timer fires, and when that pass ends the timer is still armed:
  the scheduler is Scheduled, not Idle.\<close>

theorem pass_ends_scheduled_counterexample:
  "map_option schedulerState
     (run byteLength (butlast cleanupBeforeTimer) (constructor 1000 100 Fulfilled [])) =
     Some Running \<and>
   map_option passes
     (run byteLength (butlast cleanupBeforeTimer) (constructor 1000 100 Fulfilled [])) =
     Some [AwaitingCount] \<and>
   map_option passes
     (run byteLength cleanupBeforeTimer (constructor 1000 100 Fulfilled [])) = Some [] \<and>
   map_option schedulerState
     (run byteLength cleanupBeforeTimer (constructor 1000 100 Fulfilled [])) = Some Scheduled"
  by code_simp

subsection \<open>C8: the manual entry point\<close>

text \<open>
  Claim C8, as the code has it. In every state reached from the constructor:
  \<^verbatim>\<open>cleanup()\<close> called while a pass is in progress only goes to sleep in the polling loop
  (no pass is started, no flag changes); a sleeper that wakes while the pass is still in
  progress sleeps again; a sleeper that wakes when no pass is in progress returns, and
  nothing else changes: it starts no pass and arms no timer. Only \<^verbatim>\<open>cleanup()\<close>
  called while no pass is in progress enters \<^verbatim>\<open>_asyncCleanup\<close>, and then still at most
  one pass is in flight.
\<close>

theorem cleanup_while_running_returns_without_pass:
  assumes "run est evs (constructor mx mmx opened persisted) = Some s"
  shows "(cleanupInProgress s \<longrightarrow>
            step est CallCleanup s = Some (s\<lparr> pollers := pollers s + 1 \<rparr>)) \<and>
         (cleanupInProgress s \<and> 0 < pollers s \<longrightarrow> step est PollerWakes s = Some s) \<and>
         (\<not> cleanupInProgress s \<and> 0 < pollers s \<longrightarrow>
            step est PollerWakes s = Some (s\<lparr> pollers := pollers s - 1 \<rparr>) \<and> passes s = []) \<and>
         (\<not> cleanupInProgress s \<longrightarrow>
            step est CallCleanup s = Some (startPass s) \<and> length (passes (startPass s)) \<le> 1)"
proof -
  have inv: "sched_inv s" using sched_inv_run[OF sched_inv_constructor assms] .
  have "length (passes (startPass s)) \<le> 1" if "\<not> cleanupInProgress s"
    using sched_inv_startPass[OF inv that] by (simp add: sched_inv_def)
  moreover have "passes s = []" if "\<not> cleanupInProgress s"
    using inv that by (simp add: sched_inv_def)
  ultimately show ?thesis
    by (simp add: cleanup_call_def cleanup_wake_def)
qed

theorem cleanup_while_running_returns_without_pass_witness:
  "map_option cleanupInProgress
     (run byteLength cleanupDuringPass (constructor 1 1 Fulfilled [])) = Some True \<and>
   map_option pollers
     (run byteLength cleanupDuringPass (constructor 1 1 Fulfilled [])) = Some 1 \<and>
   Option.bind (run byteLength cleanupDuringPass (constructor 1 1 Fulfilled []))
     (step byteLength PollerWakes) =
   run byteLength cleanupDuringPass (constructor 1 1 Fulfilled [])"
proof -
  let ?r = "run byteLength cleanupDuringPass (constructor 1 1 Fulfilled [])"
  have a: "map_option cleanupInProgress ?r = Some True" by code_simp
  have b: "map_option pollers ?r = Some 1" by code_simp
  obtain s where s: "?r = Some s" and c: "cleanupInProgress s" and p: "pollers s = 1"
    using a b by (cases ?r) auto
  have "0 < pollers s" using p by simp
  then have st: "step byteLength PollerWakes s = Some s"
    using cleanup_while_running_returns_without_pass[OF s] c by blast
  have "Option.bind ?r (step byteLength PollerWakes) = ?r"
    unfolding s using st by simp
  then show ?thesis using a b by blast
qed

text \<open>C8 as written fails: \<^verbatim>\<open>cleanup()\<close> is called while a pass is Running and waits;
  when it has returned, no pass is in flight, no timer is armed and nobody is polling, yet
  the store holds two records with \<^verbatim>\<open>maxItems = 1\<close>: the requested trim was not
  performed.\<close>

theorem cleanup_skips_trim_counterexample:
  "map_option schedulerState
     (run byteLength (butlast cleanupDuringPass) (constructor 1 1 Fulfilled [])) =
     Some Running \<and>
   map_option pending
     (run byteLength cleanupDuringPass (constructor 1 1 Fulfilled [])) =
     Some ([AwaitingCount], 0, 1) \<and>
   map_option pending
     (run byteLength cleanupDuringPassCompleted (constructor 1 1 Fulfilled [])) =
     Some ([], 0, 0) \<and>
   map_option schedulerState
     (run byteLength cleanupDuringPassCompleted (constructor 1 1 Fulfilled [])) =
     Some Idle \<and>
   map_option (length \<circ> store)
     (run byteLength cleanupDuringPassCompleted (constructor 1 1 Fulfilled [])) = Some 2 \<and>
   map_option maxItems
     (run byteLength cleanupDuringPassCompleted (constructor 1 1 Fulfilled [])) = Some 1"
  by code_simp

end
